theory Spec2Isabelle
  imports Main "HOL-Library.AList"
begin

section \<open>Python text\<close>

text \<open>
  A Python \<^verbatim>\<open>str\<close> is a sequence of Unicode code points. A code point is an
  integer (the value of \<^verbatim>\<open>ord\<close>) and a string is a list of them;
  \<open>str ''abc''\<close> turns an ASCII literal into such a list.
\<close>

type_synonym pystr = "int list"

definition str :: "string \<Rightarrow> pystr" where
  "str cs = map of_char cs"

text \<open>
  The Unicode character database of the interpreter is not part of the program. The two
  tables the program reads through \<^verbatim>\<open>str.upper\<close> and through \<^verbatim>\<open>\b\<close> of the
  \<^verbatim>\<open>re\<close> module are parameters of the model: the full upper-case mapping of one code
  point (a list, since one code point may map to several) and \<^verbatim>\<open>str.isalnum\<close>.
\<close>

record unicode_db =
  toupper :: "int \<Rightarrow> int list"
  isalnum :: "int \<Rightarrow> bool"

text \<open>
  White space as \<^verbatim>\<open>str.strip()\<close>, \<^verbatim>\<open>str.isspace\<close> and the class \<^verbatim>\<open>\s\<close> of a
  \<^verbatim>\<open>str\<close> pattern see it: 29 code points.
\<close>

definition isspace :: "int \<Rightarrow> bool" where
  "isspace c \<longleftrightarrow>
     (9 \<le> c \<and> c \<le> 13) \<or> (28 \<le> c \<and> c \<le> 32) \<or> c = 133 \<or> c = 160 \<or> c = 5760 \<or>
     (8192 \<le> c \<and> c \<le> 8202) \<or> c = 8232 \<or> c = 8233 \<or> c = 8239 \<or> c = 8287 \<or> c = 12288"

text \<open>\<^verbatim>\<open>\w\<close> of a \<^verbatim>\<open>str\<close> pattern: alphanumeric or the underscore.\<close>

definition isword :: "unicode_db \<Rightarrow> int \<Rightarrow> bool" where
  "isword U c \<longleftrightarrow> isalnum U c \<or> c = 95"

text \<open>
  What the theorems below assume of the tables (each holds of the database of CPython):
  on ASCII they are the familiar ones; upper-casing is idempotent; white space is caseless,
  not alphanumeric and never produced by upper-casing; and an ASCII code point other than
  a capital letter, or one of the three punctuation marks the program replaces, appears in
  an upper-cased text only where it was in the text.
\<close>

definition ascii_upper :: "int \<Rightarrow> int" where
  "ascii_upper c = (if 97 \<le> c \<and> c \<le> 122 then c - 32 else c)"

definition ascii_alnum :: "int \<Rightarrow> bool" where
  "ascii_alnum c \<longleftrightarrow> (48 \<le> c \<and> c \<le> 57) \<or> (65 \<le> c \<and> c \<le> 90) \<or> (97 \<le> c \<and> c \<le> 122)"

definition unicode_ok :: "unicode_db \<Rightarrow> bool" where
  "unicode_ok U \<longleftrightarrow>
     (\<forall>c. c < 128 \<longrightarrow> toupper U c = [ascii_upper c]) \<and>
     (\<forall>c. c < 128 \<longrightarrow> isalnum U c = ascii_alnum c) \<and>
     (\<forall>c d. d \<in> set (toupper U c) \<longrightarrow> toupper U d = [d]) \<and>
     (\<forall>c. isspace c \<longrightarrow> toupper U c = [c] \<and> \<not> isalnum U c) \<and>
     (\<forall>c d. d \<in> set (toupper U c) \<longrightarrow> isspace d \<longrightarrow> d = c) \<and>
     (\<forall>c d. d \<in> set (toupper U c) \<longrightarrow>
        (d < 128 \<and> \<not> (65 \<le> d \<and> d \<le> 90)) \<or> d = 8217 \<or> d = 8211 \<or> d = 8212 \<longrightarrow> d = c)"

text \<open>The tables cut down to ASCII: every other code point is caseless and not alphanumeric.\<close>

definition ascii_db :: unicode_db where
  "ascii_db = \<lparr> toupper = (\<lambda>c. [ascii_upper c]), isalnum = ascii_alnum \<rparr>"

subsection \<open>String methods\<close>

text \<open>\<^verbatim>\<open>s.strip()\<close> and \<^verbatim>\<open>s.strip(chars)\<close>.\<close>

definition strip_by :: "(int \<Rightarrow> bool) \<Rightarrow> pystr \<Rightarrow> pystr" where
  "strip_by P s = rev (dropWhile P (rev (dropWhile P s)))"

definition strip :: "pystr \<Rightarrow> pystr" where
  "strip s = strip_by isspace s"

definition strip_chars :: "pystr \<Rightarrow> pystr \<Rightarrow> pystr" where
  "strip_chars chars s = strip_by (\<lambda>c. c \<in> set chars) s"

text \<open>\<^verbatim>\<open>s.replace(old, new)\<close> where \<open>old\<close> and \<open>new\<close> are one character each.\<close>

definition replace :: "int \<Rightarrow> int \<Rightarrow> pystr \<Rightarrow> pystr" where
  "replace old new s = map (\<lambda>c. if c = old then new else c) s"

text \<open>\<^verbatim>\<open>s.upper()\<close>: code point by code point, without context.\<close>

definition upper :: "unicode_db \<Rightarrow> pystr \<Rightarrow> pystr" where
  "upper U s = concat (map (toupper U) s)"

section \<open>Regular expressions\<close>

text \<open>
  The fragment of \<^verbatim>\<open>re\<close> the program's patterns are written in, with the backtracking
  search of the module: a greedy repetition tries the longest run first and gives
  characters back, an optional item is tried present first, an alternation left first.
  Repetition is over a character class, which is all the patterns need.
\<close>

datatype cls = Space | NotChr int

fun in_cls :: "cls \<Rightarrow> int \<Rightarrow> bool" where
  "in_cls Space c = isspace c"
| "in_cls (NotChr a) c = (c \<noteq> a)"

datatype re =
    Eps
  | Chr int
  | Opt re
  | Star cls
  | Plus cls
  | Seq re re
  | Alt re re
  | Bnd
  | Eos
  | Grp re

text \<open>
  The state of a match: the character before the current position (none at the start of
  the text), the text still to read, and what group 1 has captured.
\<close>

type_synonym mstate = "int option \<times> pystr \<times> pystr"

fun star :: "cls \<Rightarrow> (mstate \<Rightarrow> mstate option) \<Rightarrow> int option \<Rightarrow> pystr \<Rightarrow> pystr \<Rightarrow> mstate option" where
  "star cl k p [] g = k (p, [], g)"
| "star cl k p (c # cs) g =
     (if in_cls cl c
      then (case star cl k (Some c) cs g of Some r \<Rightarrow> Some r | None \<Rightarrow> k (p, c # cs, g))
      else k (p, c # cs, g))"

text \<open>
  \<^verbatim>\<open>\b\<close> holds between a word character and a non-word character, the two ends of the
  text counting as non-word. \<^verbatim>\<open>$\<close> holds at the end of the text and before a newline
  that ends it.
\<close>

definition at_boundary :: "unicode_db \<Rightarrow> int option \<Rightarrow> pystr \<Rightarrow> bool" where
  "at_boundary U p s \<longleftrightarrow>
     (case p of None \<Rightarrow> False | Some a \<Rightarrow> isword U a) \<noteq>
     (case s of [] \<Rightarrow> False | c # _ \<Rightarrow> isword U c)"

primrec rematch :: "re \<Rightarrow> unicode_db \<Rightarrow> (mstate \<Rightarrow> mstate option) \<Rightarrow> mstate \<Rightarrow> mstate option" where
  "rematch Eps = (\<lambda>U k st. k st)"
| "rematch (Chr a) = (\<lambda>U k (p, s, g).
     case s of [] \<Rightarrow> None | c # cs \<Rightarrow> if c = a then k (Some c, cs, g) else None)"
| "rematch (Opt r) = (\<lambda>U k st.
     case rematch r U k st of Some x \<Rightarrow> Some x | None \<Rightarrow> k st)"
| "rematch (Star cl) = (\<lambda>U k (p, s, g). star cl k p s g)"
| "rematch (Plus cl) = (\<lambda>U k (p, s, g).
     case s of [] \<Rightarrow> None | c # cs \<Rightarrow> if in_cls cl c then star cl k (Some c) cs g else None)"
| "rematch (Seq a b) = (\<lambda>U k st. rematch a U (rematch b U k) st)"
| "rematch (Alt a b) = (\<lambda>U k st.
     case rematch a U k st of Some x \<Rightarrow> Some x | None \<Rightarrow> rematch b U k st)"
| "rematch Bnd = (\<lambda>U k (p, s, g). if at_boundary U p s then k (p, s, g) else None)"
| "rematch Eos = (\<lambda>U k (p, s, g). if s = [] \<or> s = [10] then k (p, s, g) else None)"
| "rematch (Grp r) = (\<lambda>U k (p, s, g).
     rematch r U (\<lambda>(p', s', g'). k (p', s', take (length s - length s') s)) (p, s, g))"

text \<open>A match of the pattern that starts at the current position, if there is one.\<close>

definition match_at :: "unicode_db \<Rightarrow> re \<Rightarrow> int option \<Rightarrow> pystr \<Rightarrow> mstate option" where
  "match_at U r p s = rematch r U Some (p, s, [])"

text \<open>A replacement template: literal characters and \<^verbatim>\<open>\1\<close>.\<close>

datatype titem = TChr int | TGrp

fun expand :: "titem list \<Rightarrow> pystr \<Rightarrow> pystr" where
  "expand [] g = []"
| "expand (TChr c # ts) g = c # expand ts g"
| "expand (TGrp # ts) g = g @ expand ts g"

text \<open>
  \<^verbatim>\<open>re.sub(pattern, repl, s)\<close>: the text is scanned from the left; where the pattern
  matches, the match is replaced and the scan goes on behind it; elsewhere one character
  is copied. No pattern of the program matches the empty text (lemma \<open>nonempty_match\<close>
  below), so a match that consumes nothing is treated as no match.
\<close>

function re_sub_from :: "unicode_db \<Rightarrow> re \<Rightarrow> titem list \<Rightarrow> int option \<Rightarrow> pystr \<Rightarrow> pystr" where
  "re_sub_from U r t p [] = []"
| "re_sub_from U r t p (c # cs) =
     (case match_at U r p (c # cs) of
        None \<Rightarrow> c # re_sub_from U r t (Some c) cs
      | Some (p', s', g) \<Rightarrow>
          if length s' < length (c # cs) then expand t g @ re_sub_from U r t p' s'
          else c # re_sub_from U r t (Some c) cs)"
  by pat_completeness auto
termination
  by (relation "measure (\<lambda>(U, r, t, p, s). length s)") auto

definition re_sub :: "unicode_db \<Rightarrow> re \<Rightarrow> titem list \<Rightarrow> pystr \<Rightarrow> pystr" where
  "re_sub U r t s = re_sub_from U r t None s"

section \<open>Cleaning\<close>

fun seq :: "re list \<Rightarrow> re" where
  "seq [] = Eps"
| "seq [r] = r"
| "seq (r # rs) = Seq r (seq rs)"

definition lit :: "string \<Rightarrow> re list" where
  "lit cs = map (\<lambda>c. Chr (of_char c)) cs"

definition dot :: re where
  "dot = Chr 46"

text \<open>
  \<^verbatim>\<open>_SUFFIXES\<close>, in the order of the source: six words between word boundaries, then
  \<^verbatim>\<open>\bL\.?L\.?P\.?(?:\b|$)\<close> and its two siblings.
\<close>

definition SUFFIXES :: "re list" where
  "SUFFIXES =
    [ seq (Bnd # lit ''LTD'' @ [Bnd]),
      seq (Bnd # lit ''LIMITED'' @ [Bnd]),
      seq (Bnd # lit ''LLP'' @ [Bnd]),
      seq (Bnd # lit ''PLC'' @ [Bnd]),
      seq (Bnd # lit ''INC'' @ [Bnd]),
      seq (Bnd # lit ''CORP'' @ [Bnd]),
      seq (Bnd # lit ''L'' @ Opt dot # lit ''L'' @ Opt dot # lit ''P'' @ [Opt dot, Alt Bnd Eos]),
      seq (Bnd # lit ''L'' @ Opt dot # lit ''T'' @ Opt dot # lit ''D'' @ [Opt dot, Alt Bnd Eos]),
      seq (Bnd # lit ''P'' @ Opt dot # lit ''L'' @ Opt dot # lit ''C'' @ [Opt dot, Alt Bnd Eos]) ]"

definition SUFFIX_PATTERNS :: "re list" where
  "SUFFIX_PATTERNS = SUFFIXES"

text \<open>\<^verbatim>\<open>\s+\<close> and \<^verbatim>\<open>\s*\(([^)]+)\)\s*\<close>.\<close>

definition WHITESPACE_RUN :: re where
  "WHITESPACE_RUN = Plus Space"

definition PARENTHESES :: re where
  "PARENTHESES = seq [Star Space, Chr 40, Grp (Plus (NotChr 41)), Chr 41, Star Space]"

text \<open>
  A Python value that can sit in a cell of a frame or be passed as a name: text, a whole
  number, the missing value of pandas (a float NaN), or \<^verbatim>\<open>None\<close>.
\<close>

datatype pyval = Str pystr | Num int | NaN | NoneVal

text \<open>
  The body of \<^verbatim>\<open>normalise_company_name\<close> for a \<^verbatim>\<open>str\<close>, over the list of compiled
  patterns (the module's global \<^verbatim>\<open>_SUFFIX_PATTERNS\<close>), which the loop runs through
  in order.
\<close>

definition strip_suffix_patterns :: "unicode_db \<Rightarrow> re list \<Rightarrow> pystr \<Rightarrow> pystr" where
  "strip_suffix_patterns U pats s =
     strip (fold (\<lambda>pat pad. re_sub U pat [TChr 32] pad) pats ([32] @ s @ [32]))"

definition normalise_with :: "unicode_db \<Rightarrow> re list \<Rightarrow> pystr \<Rightarrow> bool \<Rightarrow> pystr" where
  "normalise_with U pats name strip_suffixes =
    (let s = replace 8212 45 (replace 8211 45 (replace 8217 39 (strip name)));
         s = upper U (re_sub U WHITESPACE_RUN [TChr 32] s);
         s = re_sub U PARENTHESES [TChr 32, TGrp, TChr 32] s;
         s = (if strip_suffixes then strip_suffix_patterns U pats s else s);
         s = strip_chars (str '' .,-_[]{}'') s;
         s = re_sub U WHITESPACE_RUN [TChr 32] s
     in s)"

fun normalise_company_name :: "unicode_db \<Rightarrow> pyval \<Rightarrow> bool \<Rightarrow> pystr" where
  "normalise_company_name U (Str name) strip_suffixes = normalise_with U SUFFIX_PATTERNS name strip_suffixes"
| "normalise_company_name U _ strip_suffixes = []"

section \<open>Frames\<close>

text \<open>
  A \<^verbatim>\<open>DataFrame\<close>: the column labels in order, and the rows in order, each with its
  index label and its record, an ordered mapping from column label to value. A field a
  record does not have reads as the missing value, as in a frame built from ragged
  records. The frames \<^verbatim>\<open>read_csv\<close> returns have pairwise distinct labels (repeated
  header names are renamed). In a frame built by hand a label can stand for several
  columns; such a frame is modelled as far as its same-labelled columns hold the same
  values.
\<close>

type_synonym record_row = "(pystr \<times> pyval) list"

record frame =
  columns :: "pystr list"
  rows :: "(int \<times> record_row) list"

definition cell :: "record_row \<Rightarrow> pystr \<Rightarrow> pyval" where
  "cell r c = (case map_of r c of Some v \<Rightarrow> v | None \<Rightarrow> NaN)"

text \<open>
  Frames are objects: a variable holds a reference into a heap of frames, so that
  copying a frame and assigning a column in place are different things.
\<close>

type_synonym heap = "frame list"

datatype error =
  ValueError pystr | KeyError pystr | AttributeError pystr | TypeError pystr | ReError pystr

definition alloc :: "heap \<Rightarrow> frame \<Rightarrow> heap \<times> nat" where
  "alloc h f = (h @ [f], length h)"

text \<open>\<^verbatim>\<open>df.copy()\<close>: a new object with the same labels and data.\<close>

definition copy :: "heap \<Rightarrow> nat \<Rightarrow> heap \<times> nat" where
  "copy h df = alloc h (h ! df)"

text \<open>
  \<^verbatim>\<open>df[col]\<close> for a label of the frame: the values under the label, in row order.
  It is a \<^verbatim>\<open>Series\<close> when one column has the label and a frame of \<open>n\<close> columns when
  \<open>n\<close> columns have it; \<open>width\<close> is that number, which \<^verbatim>\<open>astype\<close> and
  \<^verbatim>\<open>map\<close> keep.
\<close>

definition getitem :: "frame \<Rightarrow> pystr \<Rightarrow> pyval list" where
  "getitem f c = map (\<lambda>(l, r). cell r c) (rows f)"

definition width :: "frame \<Rightarrow> pystr \<Rightarrow> nat" where
  "width f c = count_list (columns f) c"

text \<open>
  \<^verbatim>\<open>df[c] = value\<close>, in place, for a value made from the frame itself, one entry for
  each row, \<open>n\<close> columns wide. A \<^verbatim>\<open>Series\<close> (\<open>n = 1\<close>) goes to the column of
  label \<open>c\<close>, which keeps its position, or becomes a new last column. A frame of
  several columns can only go to as many columns of label \<open>c\<close>; otherwise the
  assignment raises \<^verbatim>\<open>ValueError\<close>.
\<close>

definition set_column :: "frame \<Rightarrow> pystr \<Rightarrow> pyval list \<Rightarrow> frame" where
  "set_column f c vs =
     \<lparr> columns = (if c \<in> set (columns f) then columns f else columns f @ [c]),
       rows = map (\<lambda>((l, r), v). (l, AList.update c v r)) (zip (rows f) vs) \<rparr>"

definition setitem :: "heap \<Rightarrow> nat \<Rightarrow> pystr \<Rightarrow> nat \<Rightarrow> pyval list \<Rightarrow> error + heap" where
  "setitem h df c n vs =
     (if n \<le> 1 \<or> width (h ! df) c = n
      then Inr (h[df := set_column (h ! df) c vs])
      else if c \<notin> set (columns (h ! df))
      then Inl (ValueError (str ''Cannot set a DataFrame with multiple columns to the single column '' @ c))
      else Inl (ValueError (str ''Columns must be same length as key'')))"

text \<open>\<^verbatim>\<open>str(n)\<close> for a whole number.\<close>

function digits :: "int \<Rightarrow> pystr" where
  "digits n = (if n < 10 then [48 + n] else digits (n div 10) @ [48 + n mod 10])"
  by pat_completeness auto
termination
  by (relation "measure nat") auto

definition repr_int :: "int \<Rightarrow> pystr" where
  "repr_int n = (if n < 0 then 45 # digits (- n) else digits n)"

text \<open>
  \<^verbatim>\<open>series.astype(str)\<close>, value by value. Text stays, a number becomes its decimal
  text. What becomes of a missing value depends on the version of pandas, which the
  program does not fix: up to pandas 2 it is rendered as text (\<^verbatim>\<open>nan\<close>,
  \<^verbatim>\<open>None\<close>), with the string type of pandas 3 it stays missing. The flag
  \<open>na_as_text\<close> says which.
\<close>

fun astype_str :: "bool \<Rightarrow> pyval \<Rightarrow> pyval" where
  "astype_str na_as_text (Str s) = Str s"
| "astype_str na_as_text (Num n) = Str (repr_int n)"
| "astype_str na_as_text NaN = (if na_as_text then Str (str ''nan'') else NaN)"
| "astype_str na_as_text NoneVal = (if na_as_text then Str (str ''None'') else NaN)"

text \<open>
  \<^verbatim>\<open>df.drop_duplicates(subset=cols)\<close>: a new frame with, of the rows that agree on the
  columns \<open>cols\<close>, the first only (missing values agree with each other); rows keep their
  order and their index labels. A label in \<open>cols\<close> that the frame does not have is a
  \<^verbatim>\<open>KeyError\<close>.
\<close>

fun first_of_key :: "('r \<Rightarrow> 'k) \<Rightarrow> 'k list \<Rightarrow> 'r list \<Rightarrow> 'r list" where
  "first_of_key key seen [] = []"
| "first_of_key key seen (r # rs) =
     (if key r \<in> set seen then first_of_key key seen rs
      else r # first_of_key key (key r # seen) rs)"

definition drop_duplicates :: "heap \<Rightarrow> nat \<Rightarrow> pystr list \<Rightarrow> error + heap \<times> nat" where
  "drop_duplicates h df cols =
     (case filter (\<lambda>c. c \<notin> set (columns (h ! df))) cols of
        c # _ \<Rightarrow> Inl (KeyError c)
      | [] \<Rightarrow> Inr (alloc h
          \<lparr> columns = columns (h ! df),
            rows = first_of_key (\<lambda>(l, r). map (cell r) cols) [] (rows (h ! df)) \<rparr>))"

text \<open>\<^verbatim>\<open>df.reset_index(drop=True)\<close>: a new frame whose index labels are 0, 1, 2, ...\<close>

definition reset_index :: "heap \<Rightarrow> nat \<Rightarrow> heap \<times> nat" where
  "reset_index h df =
     alloc h \<lparr> columns = columns (h ! df),
               rows = zip (map int [0 ..< length (rows (h ! df))]) (map snd (rows (h ! df))) \<rparr>"

section \<open>Dedupe\<close>

definition NORM_NAME :: pystr where
  "NORM_NAME = str ''_norm_name''"

text \<open>
  \<^verbatim>\<open>add_normalised_column\<close>. Where \<open>col\<close> labels several columns, \<^verbatim>\<open>out[col]\<close> is a
  frame, and assigning it to \<^verbatim>\<open>_norm_name\<close> raises unless as many columns have that
  label.
\<close>

definition add_normalised_column ::
  "unicode_db \<Rightarrow> bool \<Rightarrow> heap \<Rightarrow> nat \<Rightarrow> pystr \<Rightarrow> bool \<Rightarrow> error + heap \<times> nat" where
  "add_normalised_column U na_as_text h df col strip_suffixes =
     (if col \<notin> set (columns (h ! df))
      then Inl (ValueError (str ''Missing required column: '' @ col))
      else
        let (h, out) = copy h df;
            names = map (\<lambda>x. Str (normalise_company_name U (astype_str na_as_text x) strip_suffixes))
                      (getitem (h ! out) col)
        in case setitem h out NORM_NAME (width (h ! out) col) names of
             Inl e \<Rightarrow> Inl e
           | Inr h \<Rightarrow> Inr (h, out))"

definition dedupe_by_normalised_name ::
  "unicode_db \<Rightarrow> bool \<Rightarrow> heap \<Rightarrow> nat \<Rightarrow> error + heap \<times> nat" where
  "dedupe_by_normalised_name U na_as_text h df =
     (case (if NORM_NAME \<notin> set (columns (h ! df))
            then add_normalised_column U na_as_text h df (str ''company_name'') True
            else Inr (h, df)) of
        Inl e \<Rightarrow> Inl e
      | Inr (h, df) \<Rightarrow>
          (case drop_duplicates h df [NORM_NAME] of
             Inl e \<Rightarrow> Inl e
           | Inr (h, d) \<Rightarrow> Inr (reset_index h d)))"

text \<open>
  The two calls at the centre of \<^verbatim>\<open>run\<close>, between reading the input file and
  writing the output: the canonical names are computed, then the frame is deduplicated.
  The name column is the parameter of \<^verbatim>\<open>add_normalised_column\<close> (\<^verbatim>\<open>run\<close> leaves
  it at \<^verbatim>\<open>company_name\<close>).
\<close>

definition run_dedupe ::
  "unicode_db \<Rightarrow> bool \<Rightarrow> heap \<Rightarrow> nat \<Rightarrow> pystr \<Rightarrow> bool \<Rightarrow> error + heap \<times> nat" where
  "run_dedupe U na_as_text h df col keep_suffixes =
     (case add_normalised_column U na_as_text h df col (\<not> keep_suffixes) of
        Inl e \<Rightarrow> Inl e
      | Inr (h, df) \<Rightarrow> dedupe_by_normalised_name U na_as_text h df)"

section \<open>The normaliser on any value\<close>

text \<open>
  \<^verbatim>\<open>normalise_company_name\<close> the way Python runs it. The argument is any value, and
  every call in the body can raise: a method of \<^verbatim>\<open>str\<close> on a value that is not text is
  an \<^verbatim>\<open>AttributeError\<close>; \<^verbatim>\<open>re.sub\<close> raises \<^verbatim>\<open>re.error\<close> for a template that
  refers to a group the pattern does not have, and \<^verbatim>\<open>TypeError\<close> for a subject that is
  not text. An error ends the call.
\<close>

definition and_then :: "error + 'a \<Rightarrow> ('a \<Rightarrow> error + 'b) \<Rightarrow> error + 'b" where
  "and_then x f = (case x of Inl e \<Rightarrow> Inl e | Inr v \<Rightarrow> f v)"

definition isinstance_str :: "pyval \<Rightarrow> bool" where
  "isinstance_str v = (case v of Str s \<Rightarrow> True | _ \<Rightarrow> False)"

definition str_method :: "string \<Rightarrow> (pystr \<Rightarrow> pystr) \<Rightarrow> pyval \<Rightarrow> error + pyval" where
  "str_method name f v =
     (case v of Str s \<Rightarrow> Inr (Str (f s)) | _ \<Rightarrow> Inl (AttributeError (str name)))"

fun groups :: "re \<Rightarrow> nat" where
  "groups (Grp r) = Suc (groups r)"
| "groups (Opt r) = groups r"
| "groups (Seq a b) = groups a + groups b"
| "groups (Alt a b) = groups a + groups b"
| "groups r = 0"

definition call_sub :: "unicode_db \<Rightarrow> re \<Rightarrow> titem list \<Rightarrow> pyval \<Rightarrow> error + pyval" where
  "call_sub U r t v =
     (if TGrp \<in> set t \<and> groups r < 1 then Inl (ReError (str ''invalid group reference 1''))
      else case v of
             Str s \<Rightarrow> Inr (Str (re_sub U r t s))
           | _ \<Rightarrow> Inl (TypeError (str ''expected string or bytes-like object'')))"

text \<open>\<^verbatim>\<open>f" {s} "\<close> for a text, and the loop over the compiled patterns.\<close>

definition format_padded :: "pyval \<Rightarrow> error + pyval" where
  "format_padded v =
     (case v of Str s \<Rightarrow> Inr (Str ([32] @ s @ [32])) | _ \<Rightarrow> Inl (TypeError (str ''format'')))"

fun sub_each :: "unicode_db \<Rightarrow> re list \<Rightarrow> pyval \<Rightarrow> error + pyval" where
  "sub_each U [] pad = Inr pad"
| "sub_each U (pat # pats) pad = and_then (call_sub U pat [TChr 32] pad) (sub_each U pats)"

definition normalise_company_name_run :: "unicode_db \<Rightarrow> pyval \<Rightarrow> bool \<Rightarrow> error + pyval" where
  "normalise_company_name_run U name strip_suffixes =
     (if \<not> isinstance_str name then Inr (Str [])
      else
        and_then (str_method ''strip'' strip name) (\<lambda>s.
        and_then (str_method ''replace'' (replace 8217 39) s) (\<lambda>s.
        and_then (str_method ''replace'' (replace 8211 45) s) (\<lambda>s.
        and_then (str_method ''replace'' (replace 8212 45) s) (\<lambda>s.
        and_then (call_sub U WHITESPACE_RUN [TChr 32] s) (\<lambda>s.
        and_then (str_method ''upper'' (upper U) s) (\<lambda>s.
        and_then (call_sub U PARENTHESES [TChr 32, TGrp, TChr 32] s) (\<lambda>s.
        and_then (if strip_suffixes
                  then and_then (format_padded s) (\<lambda>pad.
                       and_then (sub_each U SUFFIX_PATTERNS pad) (str_method ''strip'' strip))
                  else Inr s) (\<lambda>s.
        and_then (str_method ''strip'' (strip_chars (str '' .,-_[]{}'')) s) (\<lambda>s.
        call_sub U WHITESPACE_RUN [TChr 32] s))))))))))"

section \<open>Auxiliary notions\<close>

text \<open>
  From the position with \<open>p\<close> before it and \<open>s\<close> ahead, reading on leads to the position
  with \<open>p'\<close> before it and \<open>s'\<close> ahead.
\<close>

definition reach :: "int option \<Rightarrow> pystr \<Rightarrow> int option \<Rightarrow> pystr \<Rightarrow> bool" where
  "reach p s p' s' \<longleftrightarrow> (\<exists>pre. s = pre @ s' \<and> p' = (if pre = [] then p else Some (last pre)))"

text \<open>
  The canonical names of a frame: what \<^verbatim>\<open>add_normalised_column\<close> computes from the
  column \<open>col\<close>, row by row.
\<close>

definition canonical_names :: "unicode_db \<Rightarrow> bool \<Rightarrow> frame \<Rightarrow> pystr \<Rightarrow> bool \<Rightarrow> pyval list" where
  "canonical_names U na f col k =
     map (\<lambda>x. Str (normalise_company_name U (astype_str na x) k)) (getitem f col)"

text \<open>
  The rows \<^verbatim>\<open>drop_duplicates(subset=["_norm_name"])\<close> keeps, and the frame
  \<^verbatim>\<open>dedupe_by_normalised_name\<close> returns for a frame that has the column.
\<close>

definition kept_rows :: "frame \<Rightarrow> (int \<times> record_row) list" where
  "kept_rows f = first_of_key (\<lambda>(l, r). map (cell r) [NORM_NAME]) [] (rows f)"

definition deduped :: "frame \<Rightarrow> frame" where
  "deduped f = \<lparr> columns = columns f,
                 rows = zip (map int [0 ..< length (kept_rows f)]) (map snd (kept_rows f)) \<rparr>"

text \<open>
  Two small frames: three company names of which two have one canonical name, and a
  name column that holds a suffix alone and a missing value, as \<^verbatim>\<open>read_csv\<close> gives
  for an empty field.
\<close>

definition example_frame :: frame where
  "example_frame =
     \<lparr> columns = [str ''company_name''],
       rows = [(0, [(str ''company_name'', Str (str ''Acme Ltd''))]),
               (1, [(str ''company_name'', Str (str ''ACME LIMITED''))]),
               (2, [(str ''company_name'', Str (str ''Beta Inc''))])] \<rparr>"

definition gap_frame :: frame where
  "gap_frame =
     \<lparr> columns = [str ''company_name''],
       rows = [(0, [(str ''company_name'', Str (str ''LTD''))]),
               (1, [(str ''company_name'', NaN)])] \<rparr>"

text \<open>
  The position behind the longest run of characters of a class: the character before it,
  and what \<^verbatim>\<open>re.sub(r"\s+", " ", s)\<close> comes to.
\<close>

definition after_run :: "(int \<Rightarrow> bool) \<Rightarrow> int option \<Rightarrow> pystr \<Rightarrow> int option" where
  "after_run P p s = (if takeWhile P s = [] then p else Some (last (takeWhile P s)))"

function collapse :: "pystr \<Rightarrow> pystr" where
  "collapse [] = []"
| "collapse (c # cs) = (if isspace c then 32 # collapse (dropWhile isspace cs) else c # collapse cs)"
  by pat_completeness auto
termination
  by (relation "measure length") (auto intro: le_imp_less_Suc length_dropWhile_le)

text \<open>No two white-space characters next to each other.\<close>

fun no_double :: "pystr \<Rightarrow> bool" where
  "no_double (a # b # s) \<longleftrightarrow> \<not> (isspace a \<and> isspace b) \<and> no_double (b # s)"
| "no_double _ \<longleftrightarrow> True"

text \<open>Every character is its own upper case, and the only white space is the space.\<close>

definition clean :: "unicode_db \<Rightarrow> int \<Rightarrow> bool" where
  "clean U c \<longleftrightarrow> toupper U c = [c] \<and> (isspace c \<longrightarrow> c = 32)"

text \<open>The text before the two last steps of \<^verbatim>\<open>normalise_company_name\<close>.\<close>

definition before_trim :: "unicode_db \<Rightarrow> re list \<Rightarrow> pystr \<Rightarrow> bool \<Rightarrow> pystr" where
  "before_trim U pats name strip_suffixes =
    (let s = replace 8212 45 (replace 8211 45 (replace 8217 39 (strip name)));
         s = upper U (re_sub U WHITESPACE_RUN [TChr 32] s);
         s = re_sub U PARENTHESES [TChr 32, TGrp, TChr 32] s
     in if strip_suffixes then strip_suffix_patterns U pats s else s)"

text \<open>A word character before the position, and ahead of it.\<close>

definition word_before :: "unicode_db \<Rightarrow> int option \<Rightarrow> bool" where
  "word_before U p = (case p of None \<Rightarrow> False | Some a \<Rightarrow> isword U a)"

definition word_ahead :: "unicode_db \<Rightarrow> pystr \<Rightarrow> bool" where
  "word_ahead U s = (case s of [] \<Rightarrow> False | c # _ \<Rightarrow> isword U c)"

text \<open>The pattern \<^verbatim>\<open>\bW\b\<close> for a word \<open>W\<close>, and the letters of a suffix pattern.\<close>

definition word_re :: "pystr \<Rightarrow> re" where
  "word_re w = seq (Bnd # map Chr w @ [Bnd])"




text \<open>The pattern \<^verbatim>\<open>\bX\.?Y\.?Z\.?(?:\b|$)\<close>.\<close>

definition dotted_re :: "int \<Rightarrow> int \<Rightarrow> int \<Rightarrow> re" where
  "dotted_re x y z = seq [Bnd, Chr x, Opt dot, Chr y, Opt dot, Chr z, Opt dot, Alt Bnd Eos]"

text \<open>The text after the parentheses are unwrapped, before the suffixes are stripped.\<close>

definition unwrapped :: "unicode_db \<Rightarrow> pystr \<Rightarrow> pystr" where
  "unwrapped U name =
     re_sub U PARENTHESES [TChr 32, TGrp, TChr 32]
       (upper U (re_sub U WHITESPACE_RUN [TChr 32]
          (replace 8212 45 (replace 8211 45 (replace 8217 39 (strip name))))))"

text \<open>
  A character that upper-casing never makes: an ASCII character other than a capital
  letter, or one of the three punctuation marks.
\<close>

definition upper_safe :: "int \<Rightarrow> bool" where
  "upper_safe x \<longleftrightarrow> (x < 128 \<and> \<not> (65 \<le> x \<and> x \<le> 90)) \<or> x = 8217 \<or> x = 8211 \<or> x = 8212"

text \<open>The characters \<^verbatim>\<open>strip(" .,-_[]{}")\<close> removes.\<close>

definition TRIMMED :: pystr where
  "TRIMMED = str '' .,-_[]{}''"

text \<open>
  The text \<open>l\<close> read so far ends in a word character; the pattern \<open>q\<close> matches somewhere
  in the text \<open>x\<close>.
\<close>

definition ends_word :: "unicode_db \<Rightarrow> pystr \<Rightarrow> bool" where
  "ends_word U l \<longleftrightarrow> l \<noteq> [] \<and> isword U (last l)"

definition matches_in :: "unicode_db \<Rightarrow> re \<Rightarrow> pystr \<Rightarrow> bool" where
  "matches_in U q x \<longleftrightarrow>
     (\<exists>a b. x = a @ b \<and> match_at U q (if a = [] then None else Some (last a)) b \<noteq> None)"

text \<open>
  What the suffix patterns have in common. A pattern has the cores \<open>C\<close> when it matches
  exactly where no word character is before, one of the texts \<open>C\<close> is ahead and no word
  character follows it; a core begins and ends with a word character and has no space.
  A pattern matches blocks when a match consumes something, begins with a word character
  only where no word character is before it, and ends with one only where none follows.
\<close>

definition has_cores :: "unicode_db \<Rightarrow> re \<Rightarrow> pystr set \<Rightarrow> bool" where
  "has_cores U q C \<longleftrightarrow>
     (\<forall>core \<in> C. core \<noteq> [] \<and> isword U (hd core) \<and> isword U (last core) \<and> 32 \<notin> set core) \<and>
     (\<forall>p s. match_at U q p s \<noteq> None \<longleftrightarrow>
        \<not> word_before U p \<and>
        (\<exists>core \<in> C. take (length core) s = core \<and> \<not> word_ahead U (drop (length core) s)))"

definition matches_blocks :: "unicode_db \<Rightarrow> re \<Rightarrow> bool" where
  "matches_blocks U q \<longleftrightarrow>
     (\<forall>p s p' s' g. match_at U q p s = Some (p', s', g) \<longrightarrow>
        length s' < length s \<and> (word_ahead U s \<longrightarrow> \<not> word_before U p) \<and>
        (word_before U p' \<longrightarrow> \<not> word_ahead U s'))"

text \<open>Reading \<^verbatim>\<open>X\.?Y\.?Z\<close>: what is left of the text, if it begins so.\<close>

definition skip_dot :: "pystr \<Rightarrow> pystr" where
  "skip_dot s = (case s of [] \<Rightarrow> [] | c # s' \<Rightarrow> if c = 46 then s' else s)"

definition read_char :: "int \<Rightarrow> pystr \<Rightarrow> pystr option" where
  "read_char x s = (case s of [] \<Rightarrow> None | c # s' \<Rightarrow> if c = x then Some s' else None)"

definition read_dotted :: "int \<Rightarrow> int \<Rightarrow> int \<Rightarrow> pystr \<Rightarrow> pystr option" where
  "read_dotted x y z s =
     (case read_char x s of None \<Rightarrow> None
      | Some s1 \<Rightarrow> (case read_char y (skip_dot s1) of None \<Rightarrow> None
          | Some s3 \<Rightarrow> read_char z (skip_dot s3)))"

text \<open>The cores of \<^verbatim>\<open>\bX\.?Y\.?Z\.?(?:\b|$)\<close>.\<close>

definition dotted_cores :: "int \<Rightarrow> int \<Rightarrow> int \<Rightarrow> pystr set" where
  "dotted_cores x y z = {[x, 46, y, 46, z], [x, 46, y, z], [x, y, 46, z], [x, y, z]}"

text \<open>The pattern matches somewhere in the text, from the position on.\<close>

fun matches_from :: "unicode_db \<Rightarrow> re \<Rightarrow> int option \<Rightarrow> pystr \<Rightarrow> bool" where
  "matches_from U q p [] = (match_at U q p [] \<noteq> None)"
| "matches_from U q p (c # s) = (match_at U q p (c # s) \<noteq> None \<or> matches_from U q (Some c) s)"

text \<open>
  What a second normalisation still finds in a result: a parenthesised group, or, where
  suffixes are stripped, a match of a suffix pattern in the padded text.
\<close>

definition still_matches :: "unicode_db \<Rightarrow> bool \<Rightarrow> pystr \<Rightarrow> bool" where
  "still_matches U k r \<longleftrightarrow>
     matches_from U PARENTHESES None r \<or>
     (k \<and> list_ex (\<lambda>q. matches_from U q None ([32] @ r @ [32])) SUFFIX_PATTERNS)"

text \<open>
  The shape every result has: nothing to trim at either end, upper case, single spaces
  as the only white space, none of the three punctuation marks that are replaced.
\<close>

definition shaped :: "unicode_db \<Rightarrow> pystr \<Rightarrow> bool" where
  "shaped U r \<longleftrightarrow>
     (r = [] \<or> (hd r \<notin> set TRIMMED \<and> last r \<notin> set TRIMMED)) \<and>
     list_all (clean U) r \<and> no_double r \<and>
     8217 \<notin> set r \<and> 8211 \<notin> set r \<and> 8212 \<notin> set r"

text \<open>
  No parenthesis opens inside an open one: after an opening parenthesis there is no
  other before the next closing one. And a group the unwrapping would take: an opening
  parenthesis, a character that is not the closing one, and a closing one further on.
\<close>

fun flat :: "pystr \<Rightarrow> bool" where
  "flat [] \<longleftrightarrow> True"
| "flat (c # s) \<longleftrightarrow> (c = 40 \<longrightarrow> 40 \<notin> set (takeWhile (\<lambda>x. x \<noteq> 41) s)) \<and> flat s"

fun group_left :: "pystr \<Rightarrow> bool" where
  "group_left [] \<longleftrightarrow> False"
| "group_left (c # s) \<longleftrightarrow> (c = 40 \<and> s \<noteq> [] \<and> hd s \<noteq> 41 \<and> 41 \<in> set s) \<or> group_left s"

definition parens :: "pystr \<Rightarrow> pystr" where
  "parens s = filter (\<lambda>c. c = 40 \<or> c = 41) s"

text \<open>
  The last \<^verbatim>\<open>strip\<close> of the function removes no underscore: it does what it would do
  without the underscore in its set.
\<close>

definition keeps_underscores :: "unicode_db \<Rightarrow> pystr \<Rightarrow> bool" where
  "keeps_underscores U name \<longleftrightarrow>
     strip_chars (str '' .,-_[]{}'') (before_trim U SUFFIX_PATTERNS name True) =
     strip_chars (str '' .,-[]{}'') (before_trim U SUFFIX_PATTERNS name True)"

(*DEFS_END*)

section \<open>Properties of the matcher\<close>

lemma reach_refl: "reach p s p s"
  by (simp add: reach_def)

lemma reach_step: "reach p (c # cs) (Some c) cs"
  unfolding reach_def by (rule exI [of _ "[c]"]) simp

lemma reach_trans: "reach p s p' s' \<Longrightarrow> reach p' s' p'' s'' \<Longrightarrow> reach p s p'' s''"
  unfolding reach_def
  apply clarify
  subgoal for pre pre'
    by (rule exI [of _ "pre @ pre'"]) auto
  done

lemma reach_length: "reach p s p' s' \<Longrightarrow> length s' \<le> length s"
  by (auto simp: reach_def)

lemma reach_set: "reach p s p' s' \<Longrightarrow> set s' \<subseteq> set s"
  by (auto simp: reach_def)

lemma reach_prev: "reach p s p' s' \<Longrightarrow> p' = p \<or> (\<exists>c \<in> set s. p' = Some c)"
  unfolding reach_def using last_in_set by fastforce

lemma star_sound:
  "star cl k p s g = Some res \<Longrightarrow> \<exists>p' s'. reach p s p' s' \<and> k (p', s', g) = Some res"
proof (induction s arbitrary: p)
  case Nil
  then show ?case by (auto intro: reach_refl)
next
  case (Cons c cs)
  show ?case
  proof (cases "in_cls cl c \<and> star cl k (Some c) cs g \<noteq> None")
    case True
    with Cons.prems have "star cl k (Some c) cs g = Some res" by auto
    from Cons.IH [OF this] obtain p' s' where "reach (Some c) cs p' s'" "k (p', s', g) = Some res"
      by blast
    then show ?thesis using reach_trans [OF reach_step] by blast
  next
    case False
    with Cons.prems have "k (p, c # cs, g) = Some res" by (auto split: if_splits option.splits)
    then show ?thesis by (blast intro: reach_refl)
  qed
qed

lemma rematch_sound:
  "rematch r U k (p, s, g) = Some res \<Longrightarrow>
     \<exists>p' s' g'. reach p s p' s' \<and> set g' \<subseteq> set g \<union> set s \<and> k (p', s', g') = Some res"
proof (induction r arbitrary: k p s g)
  case Eps
  then show ?case by (auto intro: reach_refl)
next
  case (Chr a)
  then show ?case
    by (cases s) (auto split: if_splits intro: reach_step)
next
  case (Opt r)
  show ?case
  proof (cases "rematch r U k (p, s, g)")
    case None
    with Opt.prems show ?thesis by (auto intro: reach_refl)
  next
    case (Some x)
    with Opt.prems have "rematch r U k (p, s, g) = Some res" by simp
    from Opt.IH [OF this] show ?thesis .
  qed
next
  case (Star cl)
  then have "star cl k p s g = Some res" by simp
  from star_sound [OF this] show ?case by blast
next
  case (Plus cl)
  then obtain c cs where s: "s = c # cs" and st: "star cl k (Some c) cs g = Some res"
    by (cases s) (auto split: if_splits)
  from star_sound [OF st] obtain p' s' where "reach (Some c) cs p' s'" "k (p', s', g) = Some res"
    by blast
  then show ?case unfolding s using reach_trans [OF reach_step] by blast
next
  case (Seq a b)
  then have "rematch a U (rematch b U k) (p, s, g) = Some res" by simp
  from Seq.IH(1) [OF this] obtain p1 s1 g1 where
    1: "reach p s p1 s1" "set g1 \<subseteq> set g \<union> set s" "rematch b U k (p1, s1, g1) = Some res"
    by blast
  from Seq.IH(2) [OF 1(3)] obtain p2 s2 g2 where
    2: "reach p1 s1 p2 s2" "set g2 \<subseteq> set g1 \<union> set s1" "k (p2, s2, g2) = Some res"
    by blast
  from 1 2 reach_set [OF 1(1)] have "set g2 \<subseteq> set g \<union> set s" by blast
  with 1 2 show ?case using reach_trans by blast
next
  case (Alt a b)
  show ?case
  proof (cases "rematch a U k (p, s, g)")
    case None
    with Alt.prems have "rematch b U k (p, s, g) = Some res" by simp
    from Alt.IH(2) [OF this] show ?thesis .
  next
    case (Some x)
    with Alt.prems have "rematch a U k (p, s, g) = Some res" by simp
    from Alt.IH(1) [OF this] show ?thesis .
  qed
next
  case Bnd
  then show ?case by (auto split: if_splits intro: reach_refl)
next
  case Eos
  then show ?case by (auto split: if_splits intro!: reach_refl)
next
  case (Grp r)
  then have "rematch r U (\<lambda>(p', s', g'). k (p', s', take (length s - length s') s)) (p, s, g) = Some res"
    by simp
  from Grp.IH [OF this] obtain p' s' g' where
    "reach p s p' s'" "k (p', s', take (length s - length s') s) = Some res" by auto
  moreover have "set (take (length s - length s') s) \<subseteq> set g \<union> set s"
    using set_take_subset by fastforce
  ultimately show ?case by blast
qed

lemma match_at_sound:
  "match_at U r p s = Some (p', s', g) \<Longrightarrow> reach p s p' s' \<and> set g \<subseteq> set s"
  unfolding match_at_def by (drule rematch_sound) auto

lemma cell_update: "cell (AList.update c v r) c' = (if c' = c then v else cell r c')"
  by (simp add: cell_def update_conv')

lemma length_getitem: "length (getitem f c) = length (rows f)"
  by (simp add: getitem_def)

lemma rows_set_column:
  "length vs = length (rows f) \<Longrightarrow>
     rows (set_column f c vs) = map (\<lambda>i. (fst (rows f ! i), AList.update c (vs ! i) (snd (rows f ! i)))) [0 ..< length (rows f)]"
  by (rule nth_equalityI) (simp_all add: set_column_def split: prod.splits)

lemma getitem_set_column:
  "length vs = length (rows f) \<Longrightarrow>
     getitem (set_column f c vs) c' = (if c' = c then vs else getitem f c')"
  by (rule nth_equalityI) (simp_all add: rows_set_column getitem_def cell_update split: prod.splits)

lemma index_set_column:
  "length vs = length (rows f) \<Longrightarrow> map fst (rows (set_column f c vs)) = map fst (rows f)"
  by (rule nth_equalityI) (simp_all add: rows_set_column)

lemma columns_set_column:
  "columns (set_column f c vs) = (if c \<in> set (columns f) then columns f else columns f @ [c])"
  by (simp add: set_column_def)

lemma count_list_distinct: "distinct xs \<Longrightarrow> x \<in> set xs \<Longrightarrow> count_list xs x = 1"
  by (induction xs) (auto simp: count_list_0_iff)

lemma width_distinct: "distinct (columns f) \<Longrightarrow> c \<in> set (columns f) \<Longrightarrow> width f c = 1"
  unfolding width_def by (rule count_list_distinct)

lemma add_normalised_column_Inr:
  assumes "col \<in> set (columns (h ! df))" and "distinct (columns (h ! df))"
  shows "add_normalised_column U na h df col k =
           Inr (h @ [set_column (h ! df) NORM_NAME (canonical_names U na (h ! df) col k)], length h)"
  using assms width_distinct [OF assms(2,1)]
  by (simp add: add_normalised_column_def copy_def alloc_def setitem_def canonical_names_def)

lemma length_canonical_names: "length (canonical_names U na f col k) = length (rows f)"
  by (simp add: canonical_names_def length_getitem)

text \<open>
  C10. \<^verbatim>\<open>add_normalised_column\<close>, for a frame with pairwise distinct column labels
  that has the column \<open>col\<close>, returns a new
  object: every frame of the heap, the argument among them, is as it was. The new frame
  has the index labels of the argument and its columns, with \<^verbatim>\<open>_norm_name\<close> added last
  if it was not there; every column other than \<^verbatim>\<open>_norm_name\<close> has the values it had,
  and \<^verbatim>\<open>_norm_name\<close> holds the computed canonical names, whether or not the argument
  had such a column: there is no error in that case.
\<close>

theorem add_normalised_column_frame:
  assumes "df < length h" and "col \<in> set (columns (h ! df))" and "distinct (columns (h ! df))"
  shows "\<exists>h' out. add_normalised_column U na h df col k = Inr (h', out) \<and>
           out = length h \<and> length h' = Suc (length h) \<and>
           (\<forall>i < length h. h' ! i = h ! i) \<and>
           columns (h' ! out) =
             (if NORM_NAME \<in> set (columns (h ! df)) then columns (h ! df)
              else columns (h ! df) @ [NORM_NAME]) \<and>
           map fst (rows (h' ! out)) = map fst (rows (h ! df)) \<and>
           (\<forall>c. c \<noteq> NORM_NAME \<longrightarrow> getitem (h' ! out) c = getitem (h ! df) c) \<and>
           getitem (h' ! out) NORM_NAME =
             map (\<lambda>x. Str (normalise_company_name U (astype_str na x) k)) (getitem (h ! df) col)"
  using assms
  by (simp add: add_normalised_column_Inr nth_append getitem_set_column index_set_column
      columns_set_column length_canonical_names)
    (simp add: canonical_names_def)

lemma filter_upt_Suc:
  "filter P [0 ..< Suc n] = (if P 0 then [0] else []) @ map Suc (filter (\<lambda>i. P (Suc i)) [0 ..< n])"
proof -
  have "[0 ..< Suc n] = 0 # map Suc [0 ..< n]"
    by (simp add: upt_conv_Cons map_Suc_upt del: upt_Suc)
  then show ?thesis by (simp add: filter_map comp_def del: upt_Suc)
qed

lemma first_of_key_nth:
  "first_of_key key seen rs =
     map ((!) rs) (filter (\<lambda>i. key (rs ! i) \<notin> set seen \<and> (\<forall>j<i. key (rs ! j) \<noteq> key (rs ! i)))
                    [0 ..< length rs])"
proof (induction rs arbitrary: seen)
  case Nil
  show ?case by simp
next
  case (Cons r rs)
  let ?P = "\<lambda>sn xs i. key (xs ! i) \<notin> set sn \<and> (\<forall>j<i. key (xs ! j) \<noteq> key (xs ! i))"
  have all_Suc: "\<And>i Q. (\<forall>j<Suc i. Q j) \<longleftrightarrow> Q 0 \<and> (\<forall>j<i. Q (Suc j))"
    by (metis less_Suc_eq_0_disj)
  have split: "filter (?P seen (r # rs)) [0 ..< length (r # rs)] =
      (if ?P seen (r # rs) 0 then [0] else []) @
      map Suc (filter (\<lambda>i. ?P seen (r # rs) (Suc i)) [0 ..< length rs])"
    using filter_upt_Suc [of "?P seen (r # rs)" "length rs"] by simp
  have tail: "map ((!) (r # rs)) (map Suc xs) = map ((!) rs) xs" for xs
    by simp
  show ?case
  proof (cases "key r \<in> set seen")
    case True
    then have *: "(\<lambda>i. ?P seen (r # rs) (Suc i)) = ?P seen rs"
      by (auto simp: all_Suc fun_eq_iff)
    show ?thesis
      unfolding split * map_append tail
      using True by (simp add: Cons.IH)
  next
    case False
    then have *: "(\<lambda>i. ?P seen (r # rs) (Suc i)) = ?P (key r # seen) rs"
      by (auto simp: all_Suc fun_eq_iff)
    show ?thesis
      unfolding split * map_append tail
      using False by (simp add: Cons.IH)
  qed
qed

lemma first_of_key_subset: "set (first_of_key key seen rs) \<subseteq> set rs"
  by (induction rs arbitrary: seen) auto

lemma first_of_key_length: "length (first_of_key key seen rs) \<le> length rs"
  by (induction rs arbitrary: seen) (auto intro: le_SucI)

lemma first_of_key_keys: "set (map key (first_of_key key seen rs)) = key ` set rs - set seen"
  by (induction rs arbitrary: seen) auto

lemma first_of_key_distinct: "distinct (map key (first_of_key key seen rs))"
  by (induction rs arbitrary: seen) (auto simp: first_of_key_keys [simplified])

lemma drop_duplicates_present:
  "NORM_NAME \<in> set (columns (h ! df)) \<Longrightarrow>
     drop_duplicates h df [NORM_NAME] =
       Inr (h @ [\<lparr> columns = columns (h ! df), rows = kept_rows (h ! df) \<rparr>], length h)"
  by (simp add: drop_duplicates_def alloc_def kept_rows_def)

lemma dedupe_present:
  "NORM_NAME \<in> set (columns (h ! df)) \<Longrightarrow>
     dedupe_by_normalised_name U na h df =
       Inr (h @ [\<lparr> columns = columns (h ! df), rows = kept_rows (h ! df) \<rparr>, deduped (h ! df)],
            Suc (length h))"
  by (simp add: dedupe_by_normalised_name_def drop_duplicates_present reset_index_def alloc_def
      deduped_def)

lemma columns_added: "NORM_NAME \<in> set (columns (set_column f NORM_NAME vs))"
  by (simp add: columns_set_column)

lemma dedupe_absent:
  assumes "NORM_NAME \<notin> set (columns (h ! df))" and "str ''company_name'' \<in> set (columns (h ! df))"
    and "distinct (columns (h ! df))"
  shows "dedupe_by_normalised_name U na h df =
           (let a = set_column (h ! df) NORM_NAME (canonical_names U na (h ! df) (str ''company_name'') True)
            in Inr (h @ [a, \<lparr> columns = columns a, rows = kept_rows a \<rparr>, deduped a], Suc (Suc (length h))))"
  using assms
  by (simp add: dedupe_by_normalised_name_def add_normalised_column_Inr drop_duplicates_present
      columns_added reset_index_def alloc_def deduped_def Let_def nth_append)

lemma run_dedupe_Inr:
  assumes "col \<in> set (columns (h ! df))" and "distinct (columns (h ! df))"
  shows "run_dedupe U na h df col ks =
           (let a = set_column (h ! df) NORM_NAME (canonical_names U na (h ! df) col (\<not> ks))
            in Inr (h @ [a, \<lparr> columns = columns a, rows = kept_rows a \<rparr>, deduped a], Suc (Suc (length h))))"
  using assms
  by (simp add: run_dedupe_def add_normalised_column_Inr dedupe_present columns_added Let_def)

lemma rows_deduped: "map snd (rows (deduped f)) = map snd (kept_rows f)"
  by (simp add: deduped_def)

lemma length_rows_deduped: "length (rows (deduped f)) = length (kept_rows f)"
  by (simp add: deduped_def)

lemma kept_rows_annotated:
  assumes "length vs = length (rows f)"
  shows "map snd (kept_rows (set_column f NORM_NAME vs)) =
     map (\<lambda>i. AList.update NORM_NAME (vs ! i) (snd (rows f ! i)))
       (filter (\<lambda>i. \<forall>j<i. vs ! j \<noteq> vs ! i) [0 ..< length (rows f)])"
proof -
  let ?rs = "rows (set_column f NORM_NAME vs)"
  let ?key = "\<lambda>(l, r). map (cell r) [NORM_NAME]"
  have len: "length ?rs = length (rows f)"
    using assms by (simp add: rows_set_column)
  have nth: "?rs ! i = (fst (rows f ! i), AList.update NORM_NAME (vs ! i) (snd (rows f ! i)))"
    if "i < length (rows f)" for i
    using assms that by (simp add: rows_set_column)
  have key: "?key (?rs ! i) = [vs ! i]" if "i < length (rows f)" for i
    by (simp add: nth [OF that] cell_update)
  have "filter (\<lambda>i. ?key (?rs ! i) \<notin> set [] \<and> (\<forall>j<i. ?key (?rs ! j) \<noteq> ?key (?rs ! i))) [0 ..< length (rows f)]
      = filter (\<lambda>i. \<forall>j<i. vs ! j \<noteq> vs ! i) [0 ..< length (rows f)]"
  proof (rule filter_cong [OF refl])
    fix i assume "i \<in> set [0 ..< length (rows f)]"
    then have i: "i < length (rows f)" by simp
    have "?key (?rs ! j) = [vs ! j]" if "j < i" for j
      using key [of j] that i by simp
    then show "(?key (?rs ! i) \<notin> set [] \<and> (\<forall>j<i. ?key (?rs ! j) \<noteq> ?key (?rs ! i)))
        = (\<forall>j<i. vs ! j \<noteq> vs ! i)"
      using key [OF i] by simp
  qed
  then show ?thesis
    unfolding kept_rows_def first_of_key_nth [of ?key "[]" ?rs] len
    by (simp add: nth cong: map_cong)
qed

text \<open>
  C1. For a frame with pairwise distinct column labels, computing the canonical names
  and deduplicating, as \<^verbatim>\<open>run\<close> does, returns the
  records (each with its canonical name in \<^verbatim>\<open>_norm_name\<close>) at exactly the positions
  \<open>i\<close> whose canonical name no earlier position \<open>j < i\<close> has, in the order of the input;
  the empty canonical name is a name like any other. Called on its own on a frame
  without \<^verbatim>\<open>_norm_name\<close>, \<^verbatim>\<open>dedupe_by_normalised_name\<close> does the same with the
  defaults.
\<close>

theorem dedupe_keeps_first_occurrences:
  assumes "col \<in> set (columns (h ! df))" and "distinct (columns (h ! df))"
  shows "\<exists>h' out. run_dedupe U na h df col ks = Inr (h', out) \<and>
           map snd (rows (h' ! out)) =
             map (\<lambda>i. AList.update NORM_NAME (canonical_names U na (h ! df) col (\<not> ks) ! i)
                        (snd (rows (h ! df) ! i)))
               (filter (\<lambda>i. \<forall>j<i. canonical_names U na (h ! df) col (\<not> ks) ! j
                                    \<noteq> canonical_names U na (h ! df) col (\<not> ks) ! i)
                  [0 ..< length (rows (h ! df))]) \<and>
           (col = str ''company_name'' \<and> NORM_NAME \<notin> set (columns (h ! df)) \<and> \<not> ks \<longrightarrow>
              dedupe_by_normalised_name U na h df = Inr (h', out))"
  using assms
  by (auto simp: run_dedupe_Inr Let_def nth_append rows_deduped kept_rows_annotated
      length_canonical_names dedupe_absent)

text \<open>
  On the three records of the example the first and the third are kept.
\<close>

theorem dedupe_keeps_first_occurrences_witness:
  "str ''company_name'' \<in> set (columns ([example_frame] ! 0)) \<and>
   distinct (columns ([example_frame] ! 0)) \<and>
   (\<exists>h' out. run_dedupe ascii_db True [example_frame] 0 (str ''company_name'') False = Inr (h', out) \<and>
      map snd (rows (h' ! out)) =
        [[(str ''company_name'', Str (str ''Acme Ltd'')), (str ''_norm_name'', Str (str ''ACME''))],
         [(str ''company_name'', Str (str ''Beta Inc'')), (str ''_norm_name'', Str (str ''BETA''))]])"
proof -
  have h: "str ''company_name'' \<in> set (columns ([example_frame] ! 0))"
    by code_simp
  have e: "map (\<lambda>i. AList.update NORM_NAME
                 (canonical_names ascii_db True ([example_frame] ! 0) (str ''company_name'') (\<not> False) ! i)
                        (snd (rows ([example_frame] ! 0) ! i)))
               (filter (\<lambda>i. \<forall>j<i. canonical_names ascii_db True ([example_frame] ! 0) (str ''company_name'') (\<not> False) ! j
                                    \<noteq> canonical_names ascii_db True ([example_frame] ! 0) (str ''company_name'') (\<not> False) ! i)
                  [0 ..< length (rows ([example_frame] ! 0))]) =
        [[(str ''company_name'', Str (str ''Acme Ltd'')), (str ''_norm_name'', Str (str ''ACME''))],
         [(str ''company_name'', Str (str ''Beta Inc'')), (str ''_norm_name'', Str (str ''BETA''))]]"
    by code_simp
  have d: "distinct (columns ([example_frame] ! 0))"
    by code_simp
  show ?thesis
    using h d dedupe_keeps_first_occurrences [OF h d, of ascii_db True False] unfolding e by auto
qed

lemma kept_rows_distinct: "distinct (map (\<lambda>(l, r). cell r NORM_NAME) (kept_rows f))"
proof -
  have "distinct (map (\<lambda>(l, r). map (cell r) [NORM_NAME]) (kept_rows f))"
    unfolding kept_rows_def by (rule first_of_key_distinct)
  then have "distinct (map (\<lambda>x. [x]) (map (\<lambda>(l, r). cell r NORM_NAME) (kept_rows f)))"
    by (simp add: comp_def case_prod_unfold)
  then show ?thesis by (auto simp: distinct_map inj_on_def)
qed

lemma getitem_deduped: "getitem (deduped f) c = map (\<lambda>(l, r). cell r c) (kept_rows f)"
proof -
  have "getitem (deduped f) c = map (\<lambda>r. cell r c) (map snd (rows (deduped f)))"
    by (simp add: getitem_def comp_def case_prod_unfold)
  then show ?thesis by (simp add: rows_deduped comp_def case_prod_unfold)
qed

lemma kept_rows_length: "length (kept_rows f) \<le> length (rows f)"
  unfolding kept_rows_def by (rule first_of_key_length)

lemma kept_rows_subset: "set (kept_rows f) \<subseteq> set (rows f)"
  unfolding kept_rows_def by (rule first_of_key_subset)

text \<open>
  C6. For a frame with pairwise distinct column labels that has the name column, the
  deduplicated frame has at most as many rows as the input, its canonical names
  (the column \<^verbatim>\<open>_norm_name\<close>) are pairwise distinct, and they are the canonical names of
  its records: computed again from the name column they are pairwise distinct.
\<close>

theorem dedupe_cardinality:
  assumes "col \<in> set (columns (h ! df))" and "distinct (columns (h ! df))"
  shows "\<exists>h' out. run_dedupe U na h df col ks = Inr (h', out) \<and>
           length (rows (h' ! out)) \<le> length (rows (h ! df)) \<and>
           distinct (getitem (h' ! out) NORM_NAME) \<and>
           (col \<noteq> NORM_NAME \<longrightarrow> distinct (canonical_names U na (h' ! out) col (\<not> ks)))"
proof -
  let ?vs = "canonical_names U na (h ! df) col (\<not> ks)"
  let ?a = "set_column (h ! df) NORM_NAME ?vs"
  have run: "run_dedupe U na h df col ks =
      Inr (h @ [?a, \<lparr> columns = columns ?a, rows = kept_rows ?a \<rparr>, deduped ?a], Suc (Suc (length h)))"
    using assms by (simp add: run_dedupe_Inr Let_def)
  have nth: "(h @ [?a, \<lparr> columns = columns ?a, rows = kept_rows ?a \<rparr>, deduped ?a]) ! Suc (Suc (length h))
      = deduped ?a"
    by (simp add: nth_append)
  have len: "length (rows (deduped ?a)) \<le> length (rows (h ! df))"
    using kept_rows_length [of ?a]
    by (simp add: length_rows_deduped rows_set_column length_canonical_names)
  have dist: "distinct (getitem (deduped ?a) NORM_NAME)"
    unfolding getitem_deduped by (rule kept_rows_distinct)
  have canon: "distinct (canonical_names U na (deduped ?a) col (\<not> ks))" if "col \<noteq> NORM_NAME"
  proof -
    have row: "Str (normalise_company_name U (astype_str na (cell r col)) (\<not> ks)) = cell r NORM_NAME"
      if "(l, r) \<in> set (kept_rows ?a)" for l r
    proof -
      from that kept_rows_subset have "(l, r) \<in> set (rows ?a)" by blast
      then obtain i where i: "i < length (rows (h ! df))"
        and r: "r = AList.update NORM_NAME (?vs ! i) (snd (rows (h ! df) ! i))"
        by (auto simp: rows_set_column length_canonical_names)
      have "?vs ! i = Str (normalise_company_name U (astype_str na (cell (snd (rows (h ! df) ! i)) col)) (\<not> ks))"
        using i by (simp add: canonical_names_def getitem_def case_prod_unfold)
      then show ?thesis
        using \<open>col \<noteq> NORM_NAME\<close> by (simp add: r cell_update)
    qed
    have "canonical_names U na (deduped ?a) col (\<not> ks) =
        map (\<lambda>(l, r). Str (normalise_company_name U (astype_str na (cell r col)) (\<not> ks))) (kept_rows ?a)"
      by (simp add: canonical_names_def [of U na "deduped ?a"] getitem_deduped comp_def case_prod_unfold)
    also have "\<dots> = map (\<lambda>(l, r). cell r NORM_NAME) (kept_rows ?a)"
      by (rule map_cong [OF refl]) (auto simp: row)
    finally have "canonical_names U na (deduped ?a) col (\<not> ks) = getitem (deduped ?a) NORM_NAME"
      by (simp add: getitem_deduped)
    with dist show ?thesis by simp
  qed
  show ?thesis
    unfolding run using len dist canon by (simp add: nth)
qed

lemma sub_each_text:
  "sub_each U pats (Str s) = Inr (Str (fold (\<lambda>pat pad. re_sub U pat [TChr 32] pad) pats s))"
  by (induction pats arbitrary: s) (simp_all add: and_then_def call_sub_def)

text \<open>
  C7. Run on any value, with every call that can raise taken as one that may,
  \<^verbatim>\<open>normalise_company_name\<close> raises nothing and returns a text: the one the function
  of the two arguments and the character tables gives. For a value that is not text
  the guard returns the empty string before any method is called; for a text every
  method is one of \<^verbatim>\<open>str\<close>, the template \<^verbatim>\<open>\1\<close> has its group in the pattern, and
  the scans of \<^verbatim>\<open>re.sub\<close> terminate.
\<close>

theorem normalise_company_name_total:
  "normalise_company_name_run U v k = Inr (Str (normalise_company_name U v k)) \<and>
   ((\<forall>s. v \<noteq> Str s) \<longrightarrow> normalise_company_name_run U v k = Inr (Str [])) \<and>
   (\<forall>s. v = Str s \<longrightarrow>
      normalise_company_name_run U v k = Inr (Str (normalise_with U SUFFIX_PATTERNS s k)))"
proof (cases v)
  case (Str s)
  have "groups PARENTHESES = 1" by (simp add: PARENTHESES_def)
  then show ?thesis
    by (simp add: Str normalise_company_name_run_def isinstance_str_def and_then_def
        str_method_def call_sub_def format_padded_def sub_each_text normalise_with_def
        strip_suffix_patterns_def Let_def)
qed (simp_all add: normalise_company_name_run_def isinstance_str_def)

theorem normalise_company_name_total_witness:
  "(\<forall>s. Num 42 \<noteq> Str s) \<and> normalise_company_name_run ascii_db (Num 42) True = Inr (Str []) \<and>
   normalise_company_name_run ascii_db NaN False = Inr (Str []) \<and>
   normalise_company_name_run ascii_db (Str (str ''Acme (Holdings) PLC'')) True =
     Inr (Str (str ''ACME HOLDINGS''))"
proof -
  have e: "normalise_with ascii_db SUFFIX_PATTERNS (str ''Acme (Holdings) PLC'') True = str ''ACME HOLDINGS''"
    by code_simp
  show ?thesis
    using normalise_company_name_total [of ascii_db "Num 42" True]
      normalise_company_name_total [of ascii_db NaN False]
      normalise_company_name_total [of ascii_db "Str (str ''Acme (Holdings) PLC'')" True]
    by (simp add: e)
qed

text \<open>
  C4. When the frame does not have the name column, \<^verbatim>\<open>add_normalised_column\<close> raises
  (the \<^verbatim>\<open>ValueError\<close> of the source is the one error of this kind), whatever the rows
  are: the test reads the column labels only. Nothing is returned, no frame is made, and
  the error reaches the caller of the deduplication.
\<close>

theorem missing_name_column_fails:
  assumes "col \<notin> set (columns (h ! df))"
  shows "add_normalised_column U na h df col k =
           Inl (ValueError (str ''Missing required column: '' @ col)) \<and>
         run_dedupe U na h df col ks =
           Inl (ValueError (str ''Missing required column: '' @ col)) \<and>
         (col = str ''company_name'' \<and> NORM_NAME \<notin> set (columns (h ! df)) \<longrightarrow>
            dedupe_by_normalised_name U na h df =
              Inl (ValueError (str ''Missing required column: '' @ col)))"
  using assms
  by (auto simp: add_normalised_column_def run_dedupe_def dedupe_by_normalised_name_def)

theorem missing_name_column_fails_witness:
  "str ''missing_field'' \<notin> set (columns ([example_frame] ! 0)) \<and>
   add_normalised_column ascii_db True [example_frame] 0 (str ''missing_field'') True =
     Inl (ValueError (str ''Missing required column: missing_field'')) \<and>
   run_dedupe ascii_db True [example_frame] 0 (str ''missing_field'') False =
     Inl (ValueError (str ''Missing required column: missing_field''))"
proof -
  have h: "str ''missing_field'' \<notin> set (columns ([example_frame] ! 0))"
    by code_simp
  have e: "str ''Missing required column: '' @ str ''missing_field'' = str ''Missing required column: missing_field''"
    by code_simp
  show ?thesis
    using h missing_name_column_fails [OF h, of ascii_db True True False] unfolding e by simp
qed

theorem add_normalised_column_frame_witness:
  "0 < length [example_frame] \<and> str ''company_name'' \<in> set (columns ([example_frame] ! 0)) \<and>
   distinct (columns ([example_frame] ! 0)) \<and>
   (\<exists>h' out. add_normalised_column ascii_db True [example_frame] 0 (str ''company_name'') True = Inr (h', out) \<and>
      out = 1 \<and> h' ! 0 = example_frame \<and>
      getitem (h' ! out) (str ''company_name'') = getitem example_frame (str ''company_name'') \<and>
      getitem (h' ! out) NORM_NAME = [Str (str ''ACME''), Str (str ''ACME''), Str (str ''BETA'')])"
proof -
  have h1: "0 < length [example_frame]" by simp
  have h2: "str ''company_name'' \<in> set (columns ([example_frame] ! 0))"
    by code_simp
  have ne: "str ''company_name'' \<noteq> NORM_NAME"
    by code_simp
  have e: "map (\<lambda>x. Str (normalise_company_name ascii_db (astype_str True x) True))
             (getitem ([example_frame] ! 0) (str ''company_name'')) =
           [Str (str ''ACME''), Str (str ''ACME''), Str (str ''BETA'')]"
    by code_simp
  have d: "distinct (columns ([example_frame] ! 0))"
    by code_simp
  show ?thesis
    using h2 d ne add_normalised_column_frame [OF h1 h2 d, of ascii_db True True] unfolding e
    by auto
qed

text \<open>
  C3. A record whose name is missing: \<^verbatim>\<open>normalise_company_name\<close> gives a missing value
  the empty name, but \<^verbatim>\<open>add_normalised_column\<close> hands it the result of
  \<^verbatim>\<open>astype(str)\<close>, which is the text \<^verbatim>\<open>nan\<close> where pandas renders missing values
  as text. The record then has the canonical name \<^verbatim>\<open>NAN\<close> and is kept beside a record
  whose name normalises to the empty string. Where the missing value stays missing, the
  two records collapse.
\<close>

theorem missing_name_divergence:
  "normalise_company_name ascii_db NaN True = [] \<and>
   (case run_dedupe ascii_db True [gap_frame] 0 (str ''company_name'') False of
      Inl e \<Rightarrow> False
    | Inr (h, out) \<Rightarrow> map snd (rows (h ! out)) =
        [[(str ''company_name'', Str (str ''LTD'')), (str ''_norm_name'', Str [])],
         [(str ''company_name'', NaN), (str ''_norm_name'', Str (str ''NAN''))]]) \<and>
   (case run_dedupe ascii_db False [gap_frame] 0 (str ''company_name'') False of
      Inl e \<Rightarrow> False
    | Inr (h, out) \<Rightarrow> map snd (rows (h ! out)) =
        [[(str ''company_name'', Str (str ''LTD'')), (str ''_norm_name'', Str [])]])"
  by code_simp

text \<open>
  On the example the output has two of the three rows, with the names \<^verbatim>\<open>ACME\<close> and
  \<^verbatim>\<open>BETA\<close>.
\<close>

theorem dedupe_cardinality_witness:
  "str ''company_name'' \<in> set (columns ([example_frame] ! 0)) \<and>
   distinct (columns ([example_frame] ! 0)) \<and>
   (\<exists>h' out. run_dedupe ascii_db True [example_frame] 0 (str ''company_name'') False = Inr (h', out) \<and>
      length (rows (h' ! out)) \<le> 3 \<and>
      distinct (getitem (h' ! out) NORM_NAME) \<and>
      distinct (canonical_names ascii_db True (h' ! out) (str ''company_name'') True))"
proof -
  have h: "str ''company_name'' \<in> set (columns ([example_frame] ! 0))"
    by code_simp
  have ne: "str ''company_name'' \<noteq> NORM_NAME"
    by code_simp
  have l: "length (rows ([example_frame] ! 0)) = 3"
    by code_simp
  have d: "distinct (columns ([example_frame] ! 0))"
    by code_simp
  show ?thesis
    using h d ne dedupe_cardinality [OF h d, of ascii_db True False] unfolding l by auto
qed

lemma after_run_Cons:
  "after_run P p (c # cs) = (if P c then after_run P (Some c) cs else p)"
  by (simp add: after_run_def)

lemma star_commit:
  assumes "\<And>p' c s' g'. in_cls cl c \<Longrightarrow> k (p', c # s', g') = None"
  shows "star cl k p s g = k (after_run (in_cls cl) p s, dropWhile (in_cls cl) s, g)"
proof (induction s arbitrary: p)
  case Nil
  show ?case by (simp add: after_run_def)
next
  case (Cons c cs)
  show ?case
  proof (cases "in_cls cl c")
    case True
    then show ?thesis
      by (simp add: Cons.IH after_run_Cons assms split: option.splits)
  next
    case False
    then show ?thesis by (simp add: after_run_Cons)
  qed
qed

lemma star_Some:
  "star cl Some p s g = Some (after_run (in_cls cl) p s, dropWhile (in_cls cl) s, g)"
  by (induction s arbitrary: p) (simp_all add: after_run_Cons after_run_def)

lemma match_whitespace_run:
  "match_at U WHITESPACE_RUN p (c # cs) =
     (if isspace c then Some (after_run isspace (Some c) cs, dropWhile isspace cs, []) else None)"
proof -
  have "in_cls Space = isspace" by (simp add: fun_eq_iff)
  then show ?thesis
    by (simp add: match_at_def WHITESPACE_RUN_def star_Some)
qed

lemma re_sub_whitespace_run: "re_sub_from U WHITESPACE_RUN [TChr 32] p s = collapse s"
proof (induction s arbitrary: p rule: collapse.induct)
  case 1
  show ?case by simp
next
  case (2 c cs)
  then show ?case
    by (simp add: match_whitespace_run le_imp_less_Suc length_dropWhile_le)
qed

lemma collapse_Nil_iff: "collapse s = [] \<longleftrightarrow> s = []"
  by (cases s) simp_all

lemma hd_collapse: "s \<noteq> [] \<Longrightarrow> hd (collapse s) = (if isspace (hd s) then 32 else hd s)"
  by (cases s) simp_all

lemma set_collapse: "set (collapse s) \<subseteq> insert 32 (set s)"
proof (induction s rule: collapse.induct)
  case 1
  show ?case by simp
next
  case (2 c cs)
  have "set (dropWhile isspace cs) \<subseteq> set cs" by (rule set_dropWhileD [THEN subsetI])
  with 2 show ?case by auto
qed

lemma no_double_Cons: "no_double (a # s) \<longleftrightarrow> (s = [] \<or> \<not> (isspace a \<and> isspace (hd s))) \<and> no_double s"
  by (cases s) auto

lemma no_double_collapse: "no_double (collapse s)"
proof (induction s rule: collapse.induct)
  case 1
  show ?case by simp
next
  case (2 c cs)
  show ?case
  proof (cases "isspace c")
    case True
    let ?d = "dropWhile isspace cs"
    have "collapse ?d = [] \<or> \<not> isspace (hd (collapse ?d))"
    proof (cases "?d = []")
      case True
      then show ?thesis by (simp only: collapse.simps simp_thms)
    next
      case False
      then have "\<not> isspace (hd ?d)" by (rule hd_dropWhile)
      with False show ?thesis by (simp only: hd_collapse if_False simp_thms)
    qed
    moreover have "no_double (collapse ?d)" using True 2 by simp
    ultimately show ?thesis using True
      by (simp only: collapse.simps if_True no_double_Cons) blast
  next
    case False
    with 2 show ?thesis by (simp add: no_double_Cons)
  qed
qed

lemma no_double_nth:
  "no_double s \<longleftrightarrow> (\<forall>i. Suc i < length s \<longrightarrow> \<not> (isspace (s ! i) \<and> isspace (s ! Suc i)))"
proof (induction s rule: no_double.induct)
  case (1 a b s)
  have "(\<forall>i. Suc i < length (a # b # s) \<longrightarrow> \<not> (isspace ((a # b # s) ! i) \<and> isspace ((a # b # s) ! Suc i)))
     \<longleftrightarrow> \<not> (isspace a \<and> isspace b) \<and>
         (\<forall>i. Suc i < length (b # s) \<longrightarrow> \<not> (isspace ((b # s) ! i) \<and> isspace ((b # s) ! Suc i)))"
    (is "?L \<longleftrightarrow> ?A \<and> ?R")
  proof
    assume l: ?L
    have ?A using l [rule_format, of 0] by simp
    moreover have ?R
    proof (intro allI impI)
      fix i assume "Suc i < length (b # s)"
      then show "\<not> (isspace ((b # s) ! i) \<and> isspace ((b # s) ! Suc i))"
        using l [rule_format, of "Suc i"] by simp
    qed
    ultimately show "?A \<and> ?R" ..
  next
    assume r: "?A \<and> ?R"
    show ?L
    proof (intro allI impI)
      fix i assume i: "Suc i < length (a # b # s)"
      show "\<not> (isspace ((a # b # s) ! i) \<and> isspace ((a # b # s) ! Suc i))"
      proof (cases i)
        case 0
        with r show ?thesis by simp
      next
        case (Suc j)
        with i r [THEN conjunct2, rule_format, of j] show ?thesis by simp
      qed
    qed
  qed
  with 1 show ?case by simp
qed simp_all

lemma last_dropWhile: "s \<noteq> [] \<Longrightarrow> \<not> P (last s) \<Longrightarrow> dropWhile P s \<noteq> [] \<and> last (dropWhile P s) = last s"
  by (induction s) (auto split: if_splits)

lemma last_collapse: "s \<noteq> [] \<Longrightarrow> \<not> isspace (last s) \<Longrightarrow> last (collapse s) = last s"
proof (induction s rule: collapse.induct)
  case 1
  then show ?case by simp
next
  case (2 c cs)
  show ?case
  proof (cases "cs = []")
    case True
    with 2 show ?thesis by simp
  next
    case False
    with 2 have l: "\<not> isspace (last cs)" by simp
    from last_dropWhile [of cs isspace, OF False l] 2 False l show ?thesis
      by (auto simp: collapse_Nil_iff)
  qed
qed

lemma collapse_id: "(\<forall>c \<in> set s. isspace c \<longrightarrow> c = 32) \<Longrightarrow> no_double s \<Longrightarrow> collapse s = s"
proof (induction s rule: collapse.induct)
  case 1
  show ?case by simp
next
  case (2 c cs)
  show ?case
  proof (cases "isspace c")
    case True
    with 2 have "cs = [] \<or> \<not> isspace (hd cs)" by (simp add: no_double_Cons)
    then have "dropWhile isspace cs = cs" by (cases cs) auto
    with True 2 show ?thesis by (simp add: no_double_Cons)
  next
    case False
    with 2 show ?thesis by (simp add: no_double_Cons)
  qed
qed

lemma set_strip_by: "set (strip_by P s) \<subseteq> set s"
  by (auto simp: strip_by_def dest!: set_dropWhileD)

lemma strip_by_ends:
  assumes "strip_by P s \<noteq> []"
  shows "\<not> P (hd (strip_by P s)) \<and> \<not> P (last (strip_by P s))"
proof -
  let ?x = "dropWhile P s"
  let ?y = "dropWhile P (rev ?x)"
  from assms have y: "?y \<noteq> []" by (simp add: strip_by_def)
  have x: "?x \<noteq> []"
  proof
    assume "?x = []"
    then have "?y = []" by (simp only: rev.simps dropWhile.simps)
    with y show False ..
  qed
  have "?x = rev ?y @ rev (takeWhile P (rev ?x))"
    by (metis rev_append rev_rev_ident takeWhile_dropWhile_id)
  then have "hd ?x = hd (rev ?y)" using y by (metis hd_append2 rev_is_Nil_conv)
  moreover have "\<not> P (hd ?x)" using x by (rule hd_dropWhile)
  moreover have "\<not> P (hd ?y)" using y by (rule hd_dropWhile)
  moreover have "last (rev ?y) = hd ?y" using y by (simp add: last_rev)
  ultimately show ?thesis by (simp add: strip_by_def)
qed

lemma strip_by_id: "s = [] \<or> (\<not> P (hd s) \<and> \<not> P (last s)) \<Longrightarrow> strip_by P s = s"
proof (cases s)
  case Nil
  then show ?thesis by (simp add: strip_by_def)
next
  case (Cons c cs)
  assume "s = [] \<or> (\<not> P (hd s) \<and> \<not> P (last s))"
  with Cons have h: "\<not> P c" and l: "\<not> P (last s)" by auto
  from h Cons have 1: "dropWhile P s = s" by simp
  from Cons obtain a as where r: "rev s = a # as" by (cases "rev s") auto
  then have "s = rev (a # as)" by (metis rev_rev_ident)
  then have "last s = a" by simp
  with l have "dropWhile P (a # as) = a # as" by simp
  then have 2: "dropWhile P (rev s) = rev s" by (simp only: r)
  show ?thesis by (simp add: strip_by_def 1 2)
qed

lemma set_expand: "set (expand t g) \<subseteq> {c. TChr c \<in> set t} \<union> set g"
  by (induction t g rule: expand.induct) auto

lemma set_re_sub_from: "set (re_sub_from U r t p s) \<subseteq> set s \<union> {c. TChr c \<in> set t}"
proof (induction U r t p s rule: re_sub_from.induct)
  case (1 U r t p)
  show ?case by simp
next
  case (2 U r t p c cs)
  show ?case
  proof (cases "match_at U r p (c # cs)")
    case None
    with 2(1) show ?thesis by auto
  next
    case (Some m)
    obtain p' s' g where m: "m = (p', s', g)" by (cases m)
    from match_at_sound [OF Some [unfolded m]]
    have "reach p (c # cs) p' s'" and g: "set g \<subseteq> set (c # cs)" by blast+
    then have rs: "set s' \<subseteq> set (c # cs)" by (blast dest: reach_set)
    show ?thesis
    proof (cases "length s' < length (c # cs)")
      case True
      from 2(2) [OF Some [unfolded m] refl refl True] rs g set_expand [of t g]
      show ?thesis using Some m True by auto
    next
      case False
      from 2(3) [OF Some [unfolded m] refl refl False]
      show ?thesis using Some m False by auto
    qed
  qed
qed

lemma set_re_sub: "set (re_sub U r t s) \<subseteq> set s \<union> {c. TChr c \<in> set t}"
  unfolding re_sub_def by (rule set_re_sub_from)

lemma re_sub_all:
  assumes "\<forall>c \<in> set s. P c" and "\<forall>c. TChr c \<in> set t \<longrightarrow> P c"
  shows "\<forall>c \<in> set (re_sub U r t s). P c"
  using assms set_re_sub [of U r t s] by blast

lemma fold_re_sub_all:
  assumes "\<forall>c \<in> set s. P c" and "\<forall>c. TChr c \<in> set t \<longrightarrow> P c"
  shows "\<forall>c \<in> set (fold (\<lambda>pat pad. re_sub U pat t pad) pats s). P c"
  using assms(1)
proof (induction pats arbitrary: s)
  case Nil
  then show ?case by simp
next
  case (Cons r pats)
  from re_sub_all [OF Cons.prems assms(2)] have "\<forall>c \<in> set (re_sub U r t s). P c" .
  from Cons.IH [OF this] show ?case by simp
qed

lemma isspace_32: "isspace 32"
  by (simp add: isspace_def)

lemma unicode_ok_ascii:
  "unicode_ok U \<Longrightarrow> c < 128 \<Longrightarrow> toupper U c = [ascii_upper c]"
  "unicode_ok U \<Longrightarrow> c < 128 \<Longrightarrow> isalnum U c = ascii_alnum c"
  by (simp_all add: unicode_ok_def)

lemma unicode_ok_space:
  "unicode_ok U \<Longrightarrow> isspace c \<Longrightarrow> toupper U c = [c]"
  "unicode_ok U \<Longrightarrow> isspace c \<Longrightarrow> \<not> isalnum U c"
  by (simp_all add: unicode_ok_def)

lemma clean_32: "unicode_ok U \<Longrightarrow> clean U 32"
  using isspace_32 by (simp add: clean_def unicode_ok_space)

lemma upper_clean:
  assumes "unicode_ok U" and "\<forall>c \<in> set s. isspace c \<longrightarrow> c = 32"
  shows "\<forall>d \<in> set (upper U s). clean U d"
proof
  fix d assume "d \<in> set (upper U s)"
  then obtain c where c: "c \<in> set s" and d: "d \<in> set (toupper U c)"
    by (auto simp: upper_def)
  from assms(1) d have 1: "toupper U d = [d]"
    unfolding unicode_ok_def by blast
  have 2: "d = 32" if "isspace d"
  proof -
    from assms(1) d that have "d = c" unfolding unicode_ok_def by blast
    with that c assms(2) show ?thesis by blast
  qed
  from 1 2 show "clean U d" by (simp add: clean_def)
qed

lemma upper_id: "\<forall>c \<in> set s. toupper U c = [c] \<Longrightarrow> upper U s = s"
  by (induction s) (simp_all add: upper_def)

lemma collapse_spaces: "\<forall>c \<in> set (collapse s). isspace c \<longrightarrow> c = 32"
  by (induction s rule: collapse.induct) (auto dest: set_dropWhileD)

lemma re_sub_collapse: "re_sub U WHITESPACE_RUN [TChr 32] s = collapse s"
  by (simp add: re_sub_def re_sub_whitespace_run)

lemma normalise_with_trim:
  "normalise_with U pats name k = collapse (strip_chars (str '' .,-_[]{}'') (before_trim U pats name k))"
  by (simp add: normalise_with_def before_trim_def Let_def re_sub_collapse)

lemma before_trim_clean:
  assumes "unicode_ok U"
  shows "\<forall>c \<in> set (before_trim U pats name k). clean U c"
proof -
  let ?s1 = "replace 8212 45 (replace 8211 45 (replace 8217 39 (strip name)))"
  let ?s2 = "upper U (collapse ?s1)"
  let ?s3 = "re_sub U PARENTHESES [TChr 32, TGrp, TChr 32] ?s2"
  have 2: "\<forall>c \<in> set ?s2. clean U c"
    by (rule upper_clean [OF assms collapse_spaces])
  have 3: "\<forall>c \<in> set ?s3. clean U c"
    by (rule re_sub_all [OF 2]) (simp add: clean_32 [OF assms])
  have "\<forall>c \<in> set ([32] @ ?s3 @ [32]). clean U c"
    using 3 clean_32 [OF assms] by simp
  then have "\<forall>c \<in> set (fold (\<lambda>pat pad. re_sub U pat [TChr 32] pad) pats ([32] @ ?s3 @ [32])). clean U c"
    by (rule fold_re_sub_all) (simp add: clean_32 [OF assms])
  then have 4: "\<forall>c \<in> set (strip_suffix_patterns U pats ?s3). clean U c"
    unfolding strip_suffix_patterns_def strip_def using set_strip_by by blast
  show ?thesis
    using 3 4 by (simp add: before_trim_def Let_def re_sub_collapse)
qed

text \<open>
  C9. For every value and flag, the result has no white space at either end, no two
  white-space characters next to each other, and is its own upper case.
\<close>

theorem normalised_shape:
  assumes "unicode_ok U"
  shows "(normalise_company_name U v k = [] \<or>
            \<not> isspace (hd (normalise_company_name U v k)) \<and>
            \<not> isspace (last (normalise_company_name U v k))) \<and>
         (\<forall>i. Suc i < length (normalise_company_name U v k) \<longrightarrow>
            \<not> (isspace (normalise_company_name U v k ! i) \<and>
               isspace (normalise_company_name U v k ! Suc i))) \<and>
         upper U (normalise_company_name U v k) = normalise_company_name U v k"
proof (cases v)
  case (Str name)
  let ?b = "before_trim U SUFFIX_PATTERNS name k"
  let ?t = "strip_chars (str '' .,-_[]{}'') ?b"
  have r: "normalise_company_name U v k = collapse ?t"
    by (simp add: Str normalise_with_trim)
  have cb: "\<forall>c \<in> set ?b. clean U c"
    by (rule before_trim_clean [OF assms])
  have ct: "\<forall>c \<in> set ?t. clean U c"
    using cb set_strip_by unfolding strip_chars_def by blast
  have cr: "\<forall>c \<in> set (collapse ?t). clean U c"
    using ct set_collapse [of ?t] clean_32 [OF assms] by blast
  have in32: "32 \<in> set (str '' .,-_[]{}'')"
    by (simp add: str_def)
  have ends: "collapse ?t = [] \<or> \<not> isspace (hd (collapse ?t)) \<and> \<not> isspace (last (collapse ?t))"
  proof (cases "?t = []")
    case True
    then show ?thesis by simp
  next
    case False
    from strip_by_ends [OF False [unfolded strip_chars_def]]
    have h: "hd ?t \<notin> set (str '' .,-_[]{}'')" and l: "last ?t \<notin> set (str '' .,-_[]{}'')"
      by (simp_all add: strip_chars_def)
    have "hd ?t \<in> set ?t" "last ?t \<in> set ?t" using False by simp_all
    with ct have "clean U (hd ?t)" "clean U (last ?t)" by blast+
    with h l in32 have nh: "\<not> isspace (hd ?t)" and nl: "\<not> isspace (last ?t)"
      by (auto simp: clean_def)
    from nh False have "hd (collapse ?t) = hd ?t" by (simp add: hd_collapse)
    moreover from nl False have "last (collapse ?t) = last ?t" by (simp add: last_collapse)
    ultimately show ?thesis using nh nl by simp
  qed
  have dbl: "\<forall>i. Suc i < length (collapse ?t) \<longrightarrow>
      \<not> (isspace (collapse ?t ! i) \<and> isspace (collapse ?t ! Suc i))"
    using no_double_collapse [of ?t] by (simp only: no_double_nth)
  have up: "upper U (collapse ?t) = collapse ?t"
    by (rule upper_id) (use cr in \<open>simp add: clean_def\<close>)
  show ?thesis
    unfolding r using ends dbl up by blast
qed (simp_all add: upper_def)

lemma ascii_db_ok: "unicode_ok ascii_db"
  unfolding unicode_ok_def
  by (auto simp: ascii_db_def ascii_upper_def ascii_alnum_def isspace_def)

text \<open>A name with white space at both ends and inside, and with a suffix.\<close>

theorem normalised_shape_witness:
  "unicode_ok ascii_db \<and>
   normalise_company_name ascii_db (Str (str ''  Acme   Holdings  PLC '')) True = str ''ACME HOLDINGS'' \<and>
   \<not> isspace (hd (str ''ACME HOLDINGS'')) \<and> \<not> isspace (last (str ''ACME HOLDINGS'')) \<and>
   upper ascii_db (str ''ACME HOLDINGS'') = str ''ACME HOLDINGS''"
proof -
  have e: "normalise_company_name ascii_db (Str (str ''  Acme   Holdings  PLC '')) True = str ''ACME HOLDINGS''"
    by code_simp
  have n: "str ''ACME HOLDINGS'' \<noteq> []"
    by code_simp
  show ?thesis
    using ascii_db_ok e n
      normalised_shape [OF ascii_db_ok, of "Str (str ''  Acme   Holdings  PLC '')" True]
    by (simp only: e) blast
qed

lemma in_cls_simps: "in_cls Space = isspace" "in_cls (NotChr a) = (\<lambda>c. c \<noteq> a)"
  by (simp_all add: fun_eq_iff)

lemma not_isspace_paren: "\<not> isspace 40" "\<not> isspace 41"
  by (simp_all add: isspace_def)

lemma match_parentheses:
  "match_at U PARENTHESES p s =
     (case dropWhile isspace s of
        [] \<Rightarrow> None
      | c # r2 \<Rightarrow>
          if c = 40 \<and> takeWhile (\<lambda>c. c \<noteq> 41) r2 \<noteq> [] \<and> dropWhile (\<lambda>c. c \<noteq> 41) r2 \<noteq> []
          then Some (after_run isspace (Some 41) (tl (dropWhile (\<lambda>c. c \<noteq> 41) r2)),
                     dropWhile isspace (tl (dropWhile (\<lambda>c. c \<noteq> 41) r2)),
                     takeWhile (\<lambda>c. c \<noteq> 41) r2)
          else None)"
proof -
  let ?k3 = "rematch (Seq (Chr 41) (Star Space)) U Some"
  let ?k1 = "rematch (Seq (Chr 40) (Seq (Grp (Plus (NotChr 41))) (Seq (Chr 41) (Star Space)))) U Some"
  have k3: "?k3 (q, r, g) = (case r of [] \<Rightarrow> None | c # r4 \<Rightarrow>
      if c = 41 then Some (after_run isspace (Some 41) r4, dropWhile isspace r4, g) else None)" for q r g
    by (simp add: star_Some in_cls_simps split: list.splits)
  have grp: "rematch (Grp (Plus (NotChr 41))) U ?k3 (q, r2, g) =
      (if takeWhile (\<lambda>c. c \<noteq> 41) r2 \<noteq> [] \<and> dropWhile (\<lambda>c. c \<noteq> 41) r2 \<noteq> []
       then Some (after_run isspace (Some 41) (tl (dropWhile (\<lambda>c. c \<noteq> 41) r2)),
                  dropWhile isspace (tl (dropWhile (\<lambda>c. c \<noteq> 41) r2)),
                  takeWhile (\<lambda>c. c \<noteq> 41) r2)
       else None)" for q r2 g
  proof (cases r2)
    case Nil
    then show ?thesis by simp
  next
    case (Cons c cs)
    let ?k = "\<lambda>(p', s', g'). ?k3 (p', s', take (length r2 - length s') r2)"
    have fail: "?k (p', c' # s', g') = None" if "in_cls (NotChr 41) c'" for p' c' s' g'
      using that by (simp add: k3 del: rematch.simps)
    have len: "length r2 - length (dropWhile (\<lambda>c. c \<noteq> 41) cs) = Suc (length (takeWhile (\<lambda>c. c \<noteq> 41) cs))"
      unfolding Cons using length_append [of "takeWhile (\<lambda>c. c \<noteq> 41) cs" "dropWhile (\<lambda>c. c \<noteq> 41) cs"]
      by (simp del: length_append)
    have tk: "take (Suc (length (takeWhile (\<lambda>c. c \<noteq> 41) cs))) (c # cs) = c # takeWhile (\<lambda>c. c \<noteq> 41) cs"
      using takeWhile_eq_take [of "\<lambda>c. c \<noteq> 41" cs] by simp
    show ?thesis
    proof (cases "c = 41")
      case True
      with Cons show ?thesis by simp
    next
      case False
      have "rematch (Grp (Plus (NotChr 41))) U ?k3 (q, r2, g) = star (NotChr 41) ?k (Some c) cs g"
        using False Cons by simp
      also have "\<dots> = ?k (after_run (in_cls (NotChr 41)) (Some c) cs, dropWhile (in_cls (NotChr 41)) cs, g)"
        by (rule star_commit) (rule fail)
      also have "\<dots> = ?k3 (after_run (\<lambda>c. c \<noteq> 41) (Some c) cs, dropWhile (\<lambda>c. c \<noteq> 41) cs, c # takeWhile (\<lambda>c. c \<noteq> 41) cs)"
        by (simp only: in_cls_simps prod.case len) (simp only: Cons tk)
      finally have F: "rematch (Grp (Plus (NotChr 41))) U ?k3 (q, r2, g) =
          ?k3 (after_run (\<lambda>c. c \<noteq> 41) (Some c) cs, dropWhile (\<lambda>c. c \<noteq> 41) cs, c # takeWhile (\<lambda>c. c \<noteq> 41) cs)" .
      show ?thesis
      proof (cases "dropWhile (\<lambda>c. c \<noteq> 41) cs")
        case Nil
        show ?thesis
          unfolding F k3 using False by (simp only: Cons Nil dropWhile.simps list.case if_True if_False simp_thms)
      next
        case d: (Cons x r4)
        have "x = 41" using hd_dropWhile [of "\<lambda>c. c \<noteq> 41" cs] d by simp
        then show ?thesis
          unfolding F k3 using False
          by (simp only: Cons d dropWhile.simps takeWhile.simps list.case list.sel if_True if_False simp_thms
              list.distinct not_False_eq_True)
      qed
    qed
  qed
  have k1: "?k1 (q, r, g) = (case r of [] \<Rightarrow> None | c # r2 \<Rightarrow>
      if c = 40 then rematch (Grp (Plus (NotChr 41))) U ?k3 (Some 40, r2, g) else None)" for q r g
    by (simp split: list.splits)
  have fail1: "?k1 (p', c # s', g') = None" if "in_cls Space c" for p' c s' g'
    using that not_isspace_paren by (auto simp: k1 simp del: rematch.simps)
  have "match_at U PARENTHESES p s = star Space ?k1 p s []"
    by (simp add: match_at_def PARENTHESES_def)
  also have "\<dots> = ?k1 (after_run (in_cls Space) p s, dropWhile (in_cls Space) s, [])"
    by (rule star_commit) (rule fail1)
  finally have M: "match_at U PARENTHESES p s = ?k1 (after_run isspace p s, dropWhile isspace s, [])"
    by (simp only: in_cls_simps)
  show ?thesis
  proof (cases "dropWhile isspace s")
    case Nil
    show ?thesis unfolding M k1 Nil by (simp only: list.case)
  next
    case (Cons c r2)
    show ?thesis unfolding M k1 Cons list.case grp by simp
  qed
qed

lemma re_sub_from_step:
  "s \<noteq> [] \<Longrightarrow> re_sub_from U r t p s =
     (case match_at U r p s of
        None \<Rightarrow> hd s # re_sub_from U r t (Some (hd s)) (tl s)
      | Some (p', s', g) \<Rightarrow>
          if length s' < length s then expand t g @ re_sub_from U r t p' s'
          else hd s # re_sub_from U r t (Some (hd s)) (tl s))"
  by (cases s) (auto split: option.splits)

lemma match_parentheses_prev:
  "map_option snd (match_at U PARENTHESES p s) = map_option snd (match_at U PARENTHESES q s)"
  by (simp add: match_parentheses split: list.splits)

lemma re_sub_parentheses_prev:
  "re_sub_from U PARENTHESES t p s = re_sub_from U PARENTHESES t q s"
proof (induction "length s" arbitrary: s p q rule: less_induct)
  case less
  show ?case
  proof (cases s)
    case Nil
    then show ?thesis by simp
  next
    case (Cons c cs)
    have tl: "re_sub_from U PARENTHESES t p' cs = re_sub_from U PARENTHESES t q' cs" for p' q'
      by (rule less) (simp add: Cons)
    show ?thesis
    proof (cases "match_at U PARENTHESES p s")
      case None
      with match_parentheses_prev [of U p s q] have "match_at U PARENTHESES q s = None" by simp
      with None show ?thesis by (simp add: Cons)
    next
      case (Some m)
      obtain p' s' g where m: "m = (p', s', g)" by (cases m)
      with Some match_parentheses_prev [of U p s q] obtain q' where
        q: "match_at U PARENTHESES q s = Some (q', s', g)" by (cases "match_at U PARENTHESES q s") auto
      show ?thesis
      proof (cases "length s' < length s")
        case True
        from less [OF True] have "re_sub_from U PARENTHESES t p' s' = re_sub_from U PARENTHESES t q' s'" .
        with True Some m q show ?thesis unfolding Cons by simp
      next
        case False
        with Some m q tl show ?thesis unfolding Cons by simp
      qed
    qed
  qed
qed

lemma dropWhile_append_nonspace:
  "x \<in> set xs \<Longrightarrow> \<not> P x \<Longrightarrow> dropWhile P (xs @ ys) = dropWhile P xs @ ys \<and> dropWhile P xs \<noteq> []"
  by (auto simp: dropWhile_append1)

lemma unwrap_first_group:
  assumes "40 \<notin> set pre" and "pre = [] \<or> \<not> isspace (last pre)" and "\<forall>c \<in> set ws. isspace c"
    and "inner \<noteq> []" and "41 \<notin> set inner"
  shows "re_sub_from U PARENTHESES [TChr 32, TGrp, TChr 32] p (pre @ ws @ [40] @ inner @ [41] @ post) =
           pre @ [32] @ inner @ [32] @ re_sub U PARENTHESES [TChr 32, TGrp, TChr 32] (dropWhile isspace post)"
  using assms(1,2)
proof (induction pre arbitrary: p)
  case Nil
  let ?s = "ws @ [40] @ inner @ [41] @ post"
  have d: "dropWhile isspace ?s = 40 # inner @ 41 # post"
    using assms(3) not_isspace_paren by (simp add: dropWhile_append2)
  have i: "x \<noteq> 41" if "x \<in> set inner" for x
    using that assms(5) by blast
  have t: "takeWhile (\<lambda>c. c \<noteq> 41) (inner @ 41 # post) = inner"
    by (simp add: takeWhile_append2 [OF i])
  have dd: "dropWhile (\<lambda>c. c \<noteq> 41) (inner @ 41 # post) = 41 # post"
    by (simp add: dropWhile_append2 [OF i])
  have m: "match_at U PARENTHESES p ?s =
      Some (after_run isspace (Some 41) post, dropWhile isspace post, inner)"
    unfolding match_parentheses d using assms(4) by (simp add: t dd)
  have len: "length (dropWhile isspace post) < length ?s"
    using length_dropWhile_le [of isspace post] by simp
  have "?s \<noteq> []" by simp
  from re_sub_from_step [OF this, of U PARENTHESES _ p]
  show ?case
    unfolding m using len
    by (simp add: re_sub_def re_sub_parentheses_prev [of U _ "after_run isspace (Some 41) post" _ None])
next
  case (Cons c pre)
  let ?rest = "ws @ [40] @ inner @ [41] @ post"
  from Cons.prems have last: "\<not> isspace (last (c # pre))"
    by (simp del: last.simps)
  have in_pre: "last (c # pre) \<in> set (c # pre)"
    by (rule last_in_set) simp
  from dropWhile_append_nonspace [of "last (c # pre)" "c # pre" isspace ?rest, OF in_pre last]
  have d: "dropWhile isspace ((c # pre) @ ?rest) = dropWhile isspace (c # pre) @ ?rest"
    and ne: "dropWhile isspace (c # pre) \<noteq> []" by blast+
  have "hd (dropWhile isspace (c # pre)) \<in> set (c # pre)"
    using ne by (meson hd_in_set set_dropWhileD)
  with Cons.prems(1) have "hd (dropWhile isspace (c # pre)) \<noteq> 40" by metis
  with ne have m: "match_at U PARENTHESES p ((c # pre) @ ?rest) = None"
    unfolding match_parentheses d by (cases "dropWhile isspace (c # pre)") simp_all
  have pre: "40 \<notin> set pre" "pre = [] \<or> \<not> isspace (last pre)"
    using Cons.prems by (auto split: if_splits)
  show ?case
    using m Cons.IH [OF pre, of "Some c"] by simp
qed

lemmas eval_defs =
  normalise_with_def str_def strip_def strip_by_def replace_def upper_def
  ascii_upper_def ascii_alnum_def isspace_def re_sub_def
  match_at_def WHITESPACE_RUN_def PARENTHESES_def SUFFIX_PATTERNS_def SUFFIXES_def lit_def dot_def
  strip_suffix_patterns_def strip_chars_def at_boundary_def isword_def Let_def

text \<open>
  C8. A group \<^verbatim>\<open>(inner)\<close> whose content is not empty and has no closing parenthesis,
  the first group of the text (no opening parenthesis before it), is replaced, together
  with the white space around it, by a space, its content and a space; the text before
  it is copied and the scan goes on behind it in the same way. So
  \<^verbatim>\<open>ACME (HOLDINGS) PLC\<close> becomes \<^verbatim>\<open>ACME HOLDINGS PLC\<close>, and the canonical name of
  \<^verbatim>\<open>Acme (Holdings) PLC\<close> with suffix stripping is \<^verbatim>\<open>ACME HOLDINGS\<close>.
\<close>

theorem parentheses_unwrapped:
  assumes "unicode_ok U"
    and "40 \<notin> set pre" and "pre = [] \<or> \<not> isspace (last pre)" and "\<forall>c \<in> set ws. isspace c"
    and "inner \<noteq> []" and "41 \<notin> set inner"
  shows "re_sub U PARENTHESES [TChr 32, TGrp, TChr 32] (pre @ ws @ [40] @ inner @ [41] @ post) =
           pre @ [32] @ inner @ [32] @
           re_sub U PARENTHESES [TChr 32, TGrp, TChr 32] (dropWhile isspace post) \<and>
         re_sub U PARENTHESES [TChr 32, TGrp, TChr 32] (str ''ACME (HOLDINGS) PLC'') =
           str ''ACME HOLDINGS PLC'' \<and>
         normalise_company_name U (Str (str ''Acme (Holdings) PLC'')) True = str ''ACME HOLDINGS''"
proof (intro conjI)
  show "re_sub U PARENTHESES [TChr 32, TGrp, TChr 32] (pre @ ws @ [40] @ inner @ [41] @ post) =
           pre @ [32] @ inner @ [32] @
           re_sub U PARENTHESES [TChr 32, TGrp, TChr 32] (dropWhile isspace post)"
    unfolding re_sub_def [of U PARENTHESES _ "pre @ ws @ [40] @ inner @ [41] @ post"]
    by (rule unwrap_first_group [OF assms(2-6)])
  show "re_sub U PARENTHESES [TChr 32, TGrp, TChr 32] (str ''ACME (HOLDINGS) PLC'') =
           str ''ACME HOLDINGS PLC''"
    by (simp add: eval_defs)
  show "normalise_company_name U (Str (str ''Acme (Holdings) PLC'')) True = str ''ACME HOLDINGS''"
    by (simp add: eval_defs unicode_ok_ascii [OF assms(1)])
qed

text \<open>The example, cut at the group.\<close>

theorem parentheses_unwrapped_witness:
  "unicode_ok ascii_db \<and> 40 \<notin> set (str ''ACME'') \<and> \<not> isspace (last (str ''ACME'')) \<and>
   list_all isspace (str '' '') \<and> str ''HOLDINGS'' \<noteq> [] \<and> 41 \<notin> set (str ''HOLDINGS'') \<and>
   re_sub ascii_db PARENTHESES [TChr 32, TGrp, TChr 32]
     (str ''ACME'' @ str '' '' @ [40] @ str ''HOLDINGS'' @ [41] @ str '' PLC'') =
     str ''ACME'' @ [32] @ str ''HOLDINGS'' @ [32] @
     re_sub ascii_db PARENTHESES [TChr 32, TGrp, TChr 32] (dropWhile isspace (str '' PLC'')) \<and>
   normalise_company_name ascii_db (Str (str ''Acme (Holdings) PLC'')) True = str ''ACME HOLDINGS''"
proof -
  have 1: "40 \<notin> set (str ''ACME'')" by code_simp
  have 2: "str ''ACME'' = [] \<or> \<not> isspace (last (str ''ACME''))" by code_simp
  have 3: "\<forall>c \<in> set (str '' ''). isspace c" by code_simp
  have 4: "str ''HOLDINGS'' \<noteq> []" by code_simp
  have 5: "41 \<notin> set (str ''HOLDINGS'')" by code_simp
  have 6: "\<not> isspace (last (str ''ACME''))" by code_simp
  show ?thesis
    using ascii_db_ok 1 3 4 5 6 parentheses_unwrapped [OF ascii_db_ok 1 2 3 4 5, of "str '' PLC''"]
    by (simp only: list_all_iff) blast
qed

lemma at_boundary_words: "at_boundary U p s \<longleftrightarrow> word_before U p \<noteq> word_ahead U s"
  by (simp add: at_boundary_def word_before_def word_ahead_def)

lemma seq_Cons: "rs \<noteq> [] \<Longrightarrow> seq (r # rs) = Seq r (seq rs)"
  by (cases rs) simp_all

lemma rematch_chars:
  "rematch (seq (map Chr w @ [r])) U k (p, s, g) =
     (if w = [] then rematch r U k (p, s, g)
      else if take (length w) s = w then rematch r U k (Some (last w), drop (length w) s, g)
      else None)"
proof (induction w arbitrary: p s)
  case Nil
  show ?case by simp
next
  case (Cons c w)
  have "seq (map Chr (c # w) @ [r]) = Seq (Chr c) (seq (map Chr w @ [r]))"
    by (simp add: seq_Cons)
  then show ?case
    by (cases s) (auto simp: Cons.IH)
qed

lemma match_word:
  assumes "w \<noteq> []" and "\<forall>c \<in> set w. isword U c"
  shows "match_at U (word_re w) p s =
     (if \<not> word_before U p \<and> take (length w) s = w \<and> \<not> word_ahead U (drop (length w) s)
      then Some (Some (last w), drop (length w) s, []) else None)"
proof -
  have l: "isword U (last w)" using assms by simp
  have h: "word_ahead U s" if "take (length w) s = w"
  proof -
    from that assms(1) obtain c s' where "s = c # s'" "c = hd w"
      by (cases s; cases w) auto
    with assms show ?thesis by (simp add: word_ahead_def)
  qed
  have "match_at U (word_re w) p s =
      (if at_boundary U p s then rematch (seq (map Chr w @ [Bnd])) U Some (p, s, []) else None)"
    by (simp add: match_at_def word_re_def seq_Cons)
  also have "\<dots> = (if at_boundary U p s \<and> take (length w) s = w \<and>
        at_boundary U (Some (last w)) (drop (length w) s)
      then Some (Some (last w), drop (length w) s, []) else None)"
    using assms(1) by (simp add: rematch_chars)
  finally show ?thesis
    using l h by (auto simp: at_boundary_words word_before_def)
qed














lemma isword_ascii:
  assumes "unicode_ok U"
  shows "65 \<le> c \<Longrightarrow> c \<le> 90 \<Longrightarrow> isword U c"
    and "\<not> isword U 10" and "\<not> isword U 32" and "\<not> isword U 46"
    and "\<not> isword U 44" and "\<not> isword U 45" and "\<not> isword U 91" and "\<not> isword U 93"
    and "\<not> isword U 123" and "\<not> isword U 125"
  by (simp_all add: isword_def unicode_ok_ascii [OF assms] ascii_alnum_def)

lemma isword_space: "unicode_ok U \<Longrightarrow> isspace c \<Longrightarrow> \<not> isword U c"
  by (auto simp: isword_def unicode_ok_space isspace_def)







lemma before_trim_unwrapped:
  "before_trim U pats name k =
     (if k then strip_suffix_patterns U pats (unwrapped U name) else unwrapped U name)"
  by (simp add: before_trim_def unwrapped_def Let_def)

lemma upper_avoids:
  assumes "unicode_ok U" and "upper_safe x" and "x \<notin> set s"
  shows "x \<notin> set (upper U s)"
proof
  assume "x \<in> set (upper U s)"
  then obtain c where c: "c \<in> set s" and x: "x \<in> set (toupper U c)"
    by (auto simp: upper_def)
  from assms(1) x assms(2) have "x = c"
    unfolding unicode_ok_def upper_safe_def by blast
  with c assms(3) show False by simp
qed

lemma replace_avoids: "x \<noteq> new \<Longrightarrow> x \<notin> set s \<or> x = old \<Longrightarrow> x \<notin> set (replace old new s)"
  by (auto simp: replace_def)

lemma re_sub_avoids: "x \<notin> set s \<Longrightarrow> TChr x \<notin> set t \<Longrightarrow> x \<notin> set (re_sub U r t s)"
  using set_re_sub [of U r t s] by blast

lemma strip_avoids: "x \<notin> set s \<Longrightarrow> x \<notin> set (strip_by P s)"
  using set_strip_by [of P s] by blast

lemma unwrapped_avoids:
  assumes "unicode_ok U" and "upper_safe x" and "x \<noteq> 32" and "x \<noteq> 39" and "x \<noteq> 45"
    and "x \<notin> set name \<or> x = 8217 \<or> x = 8211 \<or> x = 8212"
  shows "x \<notin> set (unwrapped U name)"
proof -
  let ?s0 = "strip name"
  let ?s1 = "replace 8212 45 (replace 8211 45 (replace 8217 39 ?s0))"
  have 0: "x \<notin> set ?s0 \<or> x = 8217 \<or> x = 8211 \<or> x = 8212"
    using assms(6) strip_avoids [of x name isspace] by (auto simp: strip_def)
  have "x \<notin> set (replace 8217 39 ?s0) \<or> x = 8211 \<or> x = 8212"
    using 0 replace_avoids [of x 39 ?s0 8217] assms(4) by blast
  then have "x \<notin> set (replace 8211 45 (replace 8217 39 ?s0)) \<or> x = 8212"
    using replace_avoids [of x 45 "replace 8217 39 ?s0" 8211] assms(5) by blast
  then have 1: "x \<notin> set ?s1"
    using replace_avoids [of x 45 "replace 8211 45 (replace 8217 39 ?s0)" 8212] assms(5) by blast
  have "x \<notin> set (re_sub U WHITESPACE_RUN [TChr 32] ?s1)"
    using 1 assms(3) by (intro re_sub_avoids) simp_all
  then have "x \<notin> set (upper U (re_sub U WHITESPACE_RUN [TChr 32] ?s1))"
    by (rule upper_avoids [OF assms(1,2)])
  then show ?thesis
    unfolding unwrapped_def using assms(3) by (intro re_sub_avoids) simp_all
qed

lemma strip_suffix_patterns_avoids:
  assumes "x \<notin> set s" and "x \<noteq> 32"
  shows "x \<notin> set (strip_suffix_patterns U pats s)"
proof -
  have "\<forall>c \<in> set ([32] @ s @ [32]). c \<noteq> x" using assms by auto
  then have "\<forall>c \<in> set (fold (\<lambda>pat pad. re_sub U pat [TChr 32] pad) pats ([32] @ s @ [32])). c \<noteq> x"
    by (rule fold_re_sub_all) (use assms(2) in simp)
  then show ?thesis
    unfolding strip_suffix_patterns_def strip_def using set_strip_by by blast
qed





lemma replace_id: "old \<notin> set s \<Longrightarrow> replace old new s = s"
  by (induction s) (auto simp: replace_def)

lemma re_sub_from_id:
  assumes "\<And>a b. s = a @ b \<Longrightarrow> b \<noteq> [] \<Longrightarrow>
     match_at U r (if a = [] then p else Some (last a)) b = None"
  shows "re_sub_from U r t p s = s"
  using assms
proof (induction s arbitrary: p)
  case Nil
  show ?case by simp
next
  case (Cons c cs)
  have m: "match_at U r p (c # cs) = None"
    using Cons.prems [of "[]" "c # cs"] by simp
  have "re_sub_from U r t (Some c) cs = cs"
  proof (rule Cons.IH)
    fix a b assume "cs = a @ b" "b \<noteq> []"
    then show "match_at U r (if a = [] then Some c else Some (last a)) b = None"
      using Cons.prems [of "c # a" b] by (cases "a = []") simp_all
  qed
  with m show ?case by simp
qed

lemma strip_pad:
  assumes "r = [] \<or> (\<not> P (hd r) \<and> \<not> P (last r))" and "P 32"
  shows "strip_by P ([32] @ r @ [32]) = r"
proof (cases r)
  case Nil
  with assms(2) show ?thesis by (simp add: strip_by_def)
next
  case (Cons c cs)
  with assms(1) have h: "\<not> P c" and l: "\<not> P (last r)" by auto
  have 1: "dropWhile P ([32] @ r @ [32]) = r @ [32]"
    using assms(2) h by (simp add: Cons)
  from Cons obtain a as where rv: "rev r = a # as" by (cases "rev r") auto
  then have "r = rev (a # as)" by (metis rev_rev_ident)
  then have "last r = a" by simp
  with l have "dropWhile P (rev (r @ [32])) = rev r"
    using assms(2) by (simp add: rv)
  then show ?thesis
    by (simp only: strip_by_def 1 rev_rev_ident)
qed

lemma trimmed_nonword:
  assumes "unicode_ok U" and "c \<in> set TRIMMED" and "c \<noteq> 95"
  shows "\<not> isword U c"
proof -
  from assms(2,3) have "c = 32 \<or> c = 46 \<or> c = 44 \<or> c = 45 \<or> c = 91 \<or> c = 93 \<or> c = 123 \<or> c = 125"
    by (auto simp: TRIMMED_def str_def)
  then show ?thesis using isword_ascii [OF assms(1)] by auto
qed

lemma set_collapse_avoids: "x \<notin> set s \<Longrightarrow> x \<noteq> 32 \<Longrightarrow> x \<notin> set (collapse s)"
  using set_collapse [of s] by blast

lemma normalise_avoids:
  assumes "unicode_ok U" and "upper_safe x" and "x \<noteq> 32" and "x \<noteq> 39" and "x \<noteq> 45"
    and "x \<notin> set name \<or> x = 8217 \<or> x = 8211 \<or> x = 8212"
  shows "x \<notin> set (unwrapped U name)" and "x \<notin> set (before_trim U pats name k)"
    and "x \<notin> set (normalise_with U pats name k)"
proof -
  show u: "x \<notin> set (unwrapped U name)"
    by (rule unwrapped_avoids [OF assms])
  show b: "x \<notin> set (before_trim U pats name k)"
    using u strip_suffix_patterns_avoids [OF u assms(3)] by (simp add: before_trim_unwrapped)
  have "x \<notin> set (strip_chars (str '' .,-_[]{}'') (before_trim U pats name k))"
    unfolding strip_chars_def by (rule strip_avoids [OF b])
  then show "x \<notin> set (normalise_with U pats name k)"
    unfolding normalise_with_trim using assms(3) by (rule set_collapse_avoids)
qed

text \<open>Where the suffix patterns match, and what replacing a match by a space leaves.\<close>

lemma word_has_cores:
  assumes "w \<noteq> []" and "\<forall>c \<in> set w. isword U c" and "32 \<notin> set w"
  shows "has_cores U (word_re w) {w}"
  unfolding has_cores_def using assms
  by (auto simp: match_word [OF assms(1,2)] hd_in_set)

lemma word_matches_blocks:
  assumes "w \<noteq> []" and "\<forall>c \<in> set w. isword U c"
  shows "matches_blocks U (word_re w)"
  unfolding matches_blocks_def
proof (intro allI impI)
  fix p s p' s' g assume "match_at U (word_re w) p s = Some (p', s', g)"
  then have m: "\<not> word_before U p" "take (length w) s = w" "\<not> word_ahead U (drop (length w) s)"
    "p' = Some (last w)" "s' = drop (length w) s"
    by (auto simp: match_word [OF assms] split: if_splits)
  from m(2) have "length (take (length w) s) = length w" by simp
  then have "length w \<le> length s" by simp
  with assms(1) have "length s - length w < length s"
    by (cases w) auto
  with m show "length s' < length s \<and> (word_ahead U s \<longrightarrow> \<not> word_before U p) \<and>
      (word_before U p' \<longrightarrow> \<not> word_ahead U s')"
    by simp
qed

lemma whitespace_matches_blocks:
  assumes "\<And>c. isspace c \<Longrightarrow> \<not> isword U c"
  shows "matches_blocks U WHITESPACE_RUN"
proof -
  have a: "\<not> word_before U (after_run isspace (Some c) cs)" if "isspace c" for c cs
    using that assms set_takeWhileD [of _ isspace cs]
    by (auto simp: after_run_def word_before_def)
  show ?thesis
    unfolding matches_blocks_def
  proof (intro allI impI)
    fix p s p' s' g assume m: "match_at U WHITESPACE_RUN p s = Some (p', s', g)"
    then obtain c cs where s: "s = c # cs" by (cases s) (auto simp: match_at_def WHITESPACE_RUN_def)
    from m have c: "isspace c" and p': "p' = after_run isspace (Some c) cs" and s': "s' = dropWhile isspace cs"
      unfolding s match_whitespace_run by (auto split: if_splits)
    show "length s' < length s \<and> (word_ahead U s \<longrightarrow> \<not> word_before U p) \<and>
        (word_before U p' \<longrightarrow> \<not> word_ahead U s')"
      using c a [OF c, of cs] assms [OF c] length_dropWhile_le [of isspace cs]
      by (simp add: s p' s' word_ahead_def le_imp_less_Suc)
  qed
qed

lemma rematch_Chr:
  "rematch (Seq (Chr a) r) U k (p, s, g) =
     (case read_char a s of None \<Rightarrow> None | Some s' \<Rightarrow> rematch r U k (Some a, s', g))"
  by (cases s) (simp_all add: read_char_def)

lemma rematch_opt_dot:
  assumes "y \<noteq> 46"
  shows "rematch (Seq (Opt dot) (Seq (Chr y) r)) U k (p, s, g) =
     rematch (Seq (Chr y) r) U k (p, skip_dot s, g)"
proof -
  let ?K = "rematch (Seq (Chr y) r) U k"
  have o: "rematch (Seq (Opt dot) (Seq (Chr y) r)) U k (p, s, g) =
      (case rematch dot U ?K (p, s, g) of Some v \<Rightarrow> Some v | None \<Rightarrow> ?K (p, s, g))"
    by (simp only: rematch.simps(3) rematch.simps(6) [of "Opt dot"])
  have prev: "?K (q, t, g) = ?K (p, t, g)" for q t
    by (simp only: rematch_Chr)
  show ?thesis
  proof (cases s)
    case Nil
    then show ?thesis unfolding o by (simp add: dot_def skip_dot_def)
  next
    case (Cons c s')
    show ?thesis
    proof (cases "c = 46")
      case True
      have 1: "rematch dot U ?K (p, s, g) = ?K (Some 46, s', g)"
        unfolding Cons True dot_def by simp
      have 2: "?K (p, s, g) = None"
        unfolding Cons True rematch_Chr using assms by (simp add: read_char_def)
      have 3: "skip_dot s = s'"
        by (simp add: Cons True skip_dot_def)
      show ?thesis
        unfolding o 1 2 3 prev [of "Some 46" s'] by (simp split: option.splits)
    next
      case False
      have 1: "rematch dot U ?K (p, s, g) = None"
        unfolding Cons dot_def using False by simp
      have 3: "skip_dot s = s"
        using False by (simp add: Cons skip_dot_def)
      show ?thesis unfolding o 1 3 by simp
    qed
  qed
qed

lemma rematch_dotted_end:
  assumes "isword U z" and "\<not> isword U 46" and "\<not> isword U 10"
  shows "rematch (Seq (Opt dot) (Alt Bnd Eos)) U Some (Some z, s5, g) =
     (if word_ahead U s5 then None
      else case s5 of [] \<Rightarrow> Some (Some z, s5, g)
        | c # s6 \<Rightarrow>
            if c = 46 \<and> (word_ahead U s6 \<or> s6 = [] \<or> s6 = [10]) then Some (Some 46, s6, g)
            else Some (Some z, s5, g))"
proof (cases s5)
  case Nil
  with assms show ?thesis
    by (simp add: dot_def at_boundary_words word_before_def word_ahead_def)
next
  case (Cons c s6)
  show ?thesis
  proof (cases "c = 46")
    case True
    with assms show ?thesis
      by (auto simp: Cons dot_def at_boundary_words word_before_def word_ahead_def)
  next
    case False
    with assms show ?thesis
      by (auto simp: Cons dot_def at_boundary_words word_before_def word_ahead_def)
  qed
qed

lemma read_char_word: "read_char x s = Some s' \<Longrightarrow> isword U x \<Longrightarrow> word_ahead U s"
  by (cases s) (auto simp: read_char_def word_ahead_def split: if_splits)

lemma match_dotted:
  assumes "isword U x" "isword U y" "isword U z" "\<not> isword U 46" "\<not> isword U 10"
    and "y \<noteq> 46" "z \<noteq> 46"
  shows "match_at U (dotted_re x y z) p s =
     (if word_before U p then None
      else case read_dotted x y z s of None \<Rightarrow> None
        | Some s5 \<Rightarrow>
            if word_ahead U s5 then None
            else case s5 of [] \<Rightarrow> Some (Some z, s5, [])
              | c # s6 \<Rightarrow>
                  if c = 46 \<and> (word_ahead U s6 \<or> s6 = [] \<or> s6 = [10]) then Some (Some 46, s6, [])
                  else Some (Some z, s5, []))"
proof -
  let ?tail = "Seq (Opt dot) (Alt Bnd Eos)"
  have body: "rematch (Seq (Chr x) (Seq (Opt dot) (Seq (Chr y) (Seq (Opt dot) (Seq (Chr z) ?tail))))) U Some (p, s, []) =
      (case read_dotted x y z s of None \<Rightarrow> None
       | Some s5 \<Rightarrow> rematch ?tail U Some (Some z, s5, []))"
    unfolding rematch_Chr rematch_opt_dot [OF assms(6)] rematch_opt_dot [OF assms(7)]
    by (simp add: read_dotted_def split: option.splits del: rematch.simps)
  have d: "dotted_re x y z = Seq Bnd (Seq (Chr x) (Seq (Opt dot) (Seq (Chr y) (Seq (Opt dot) (Seq (Chr z) ?tail)))))"
    by (simp add: dotted_re_def)
  have m: "match_at U (dotted_re x y z) p s =
      (if at_boundary U p s
       then rematch (Seq (Chr x) (Seq (Opt dot) (Seq (Chr y) (Seq (Opt dot) (Seq (Chr z) ?tail))))) U Some (p, s, [])
       else None)"
    unfolding match_at_def d by simp
  show ?thesis
  proof (cases "read_dotted x y z s")
    case None
    then show ?thesis unfolding m body by simp
  next
    case (Some s5)
    then obtain s1 where "read_char x s = Some s1"
      by (auto simp: read_dotted_def split: option.splits)
    then have "word_ahead U s" using assms(1) by (rule read_char_word)
    then have "at_boundary U p s \<longleftrightarrow> \<not> word_before U p"
      by (simp add: at_boundary_words)
    then show ?thesis
      unfolding m body Some rematch_dotted_end [OF assms(3,4,5)] by simp
  qed
qed

lemma read_dotted_iff:
  assumes "y \<noteq> 46" "z \<noteq> 46"
  shows "read_dotted x y z s = Some s5 \<longleftrightarrow> (\<exists>core \<in> dotted_cores x y z. s = core @ s5)"
proof
  assume "read_dotted x y z s = Some s5"
  then obtain s1 s3 where 1: "read_char x s = Some s1" and 2: "read_char y (skip_dot s1) = Some s3"
    and 3: "read_char z (skip_dot s3) = Some s5"
    by (auto simp: read_dotted_def split: option.splits)
  from 1 have s: "s = x # s1" by (cases s) (auto simp: read_char_def split: if_splits)
  from 2 have "s1 = 46 # y # s3 \<or> s1 = y # s3"
    by (cases s1) (auto simp: read_char_def skip_dot_def split: if_splits list.splits)
  moreover from 3 have "s3 = 46 # z # s5 \<or> s3 = z # s5"
    by (cases s3) (auto simp: read_char_def skip_dot_def split: if_splits list.splits)
  ultimately show "\<exists>core \<in> dotted_cores x y z. s = core @ s5"
    unfolding s dotted_cores_def by auto
next
  assume "\<exists>core \<in> dotted_cores x y z. s = core @ s5"
  then show "read_dotted x y z s = Some s5"
    using assms by (auto simp: dotted_cores_def read_dotted_def read_char_def skip_dot_def)
qed

lemma dotted_has_cores:
  assumes "isword U x" "isword U y" "isword U z" "\<not> isword U 46" "\<not> isword U 10"
    and "x \<noteq> 32" "y \<noteq> 32" "z \<noteq> 32"
  shows "has_cores U (dotted_re x y z) (dotted_cores x y z)"
proof -
  have y: "y \<noteq> 46" and z: "z \<noteq> 46" using assms by auto
  have ex: "(\<exists>core \<in> dotted_cores x y z. take (length core) s = core \<and> \<not> word_ahead U (drop (length core) s))
      \<longleftrightarrow> (\<exists>s5. read_dotted x y z s = Some s5 \<and> \<not> word_ahead U s5)" for s
  proof
    assume "\<exists>core \<in> dotted_cores x y z. take (length core) s = core \<and> \<not> word_ahead U (drop (length core) s)"
    then obtain core where c: "core \<in> dotted_cores x y z" "take (length core) s = core"
      "\<not> word_ahead U (drop (length core) s)" by blast
    from c(2) have "s = core @ drop (length core) s" by (metis append_take_drop_id)
    with c(1) have "read_dotted x y z s = Some (drop (length core) s)"
      unfolding read_dotted_iff [OF y z] by blast
    with c(3) show "\<exists>s5. read_dotted x y z s = Some s5 \<and> \<not> word_ahead U s5" by blast
  next
    assume "\<exists>s5. read_dotted x y z s = Some s5 \<and> \<not> word_ahead U s5"
    then obtain s5 core where c: "core \<in> dotted_cores x y z" "s = core @ s5" "\<not> word_ahead U s5"
      unfolding read_dotted_iff [OF y z] by blast
    from c(2) have "take (length core) s = core" "drop (length core) s = s5" by simp_all
    with c(1,3) show "\<exists>core \<in> dotted_cores x y z. take (length core) s = core \<and> \<not> word_ahead U (drop (length core) s)"
      by metis
  qed
  have m: "match_at U (dotted_re x y z) p s \<noteq> None \<longleftrightarrow>
      \<not> word_before U p \<and> (\<exists>s5. read_dotted x y z s = Some s5 \<and> \<not> word_ahead U s5)" for p s
    unfolding match_dotted [OF assms(1-5) y z] by (auto split: option.splits list.splits)
  show ?thesis
    unfolding has_cores_def m ex using assms by (auto simp: dotted_cores_def)
qed

lemma read_dotted_length: "read_dotted x y z s = Some s5 \<Longrightarrow> length s5 < length s"
  by (auto simp: read_dotted_def read_char_def skip_dot_def split: option.splits list.splits if_splits)

lemma dotted_matches_blocks:
  assumes "isword U x" "isword U y" "isword U z" "\<not> isword U 46" "\<not> isword U 10"
  shows "matches_blocks U (dotted_re x y z)"
  unfolding matches_blocks_def
proof (intro allI impI)
  have y: "y \<noteq> 46" and z: "z \<noteq> 46" using assms by auto
  fix p s p' s' g assume m: "match_at U (dotted_re x y z) p s = Some (p', s', g)"
  then have p: "\<not> word_before U p"
    unfolding match_dotted [OF assms y z] by (auto split: if_splits)
  from m obtain s5 where r: "read_dotted x y z s = Some s5" and w: "\<not> word_ahead U s5"
    unfolding match_dotted [OF assms y z] by (auto split: if_splits option.splits)
  from m r w p have res: "(p' = Some z \<and> s' = s5) \<or> (p' = Some 46 \<and> s5 = 46 # s')"
    unfolding match_dotted [OF assms y z] by (auto split: if_splits list.splits)
  then have "length s' \<le> length s5" by auto
  with read_dotted_length [OF r] have "length s' < length s" by simp
  moreover have "word_before U p' \<longrightarrow> \<not> word_ahead U s'"
    using res w assms(4) by (auto simp: word_before_def)
  ultimately show "length s' < length s \<and> (word_ahead U s \<longrightarrow> \<not> word_before U p) \<and>
      (word_before U p' \<longrightarrow> \<not> word_ahead U s')"
    using p by simp
qed

lemma word_before_last: "word_before U (if a = [] then None else Some (last a)) \<longleftrightarrow> ends_word U a"
  by (simp add: word_before_def ends_word_def)

lemma matches_inI:
  "x = a @ b \<Longrightarrow> match_at U q (if a = [] then None else Some (last a)) b \<noteq> None \<Longrightarrow> matches_in U q x"
  unfolding matches_in_def by blast

lemma core_match:
  assumes "has_cores U q C"
  shows "match_at U q (if a = [] then None else Some (last a)) b \<noteq> None \<longleftrightarrow>
     \<not> ends_word U a \<and>
     (\<exists>core \<in> C. take (length core) b = core \<and> \<not> word_ahead U (drop (length core) b))"
  using assms unfolding has_cores_def word_before_last [symmetric] by blast

lemma core_props:
  assumes "has_cores U q C" and "core \<in> C"
  shows "core \<noteq> []" "isword U (hd core)" "isword U (last core)" "32 \<notin> set core"
  using assms unfolding has_cores_def by blast+

lemma core_within:
  assumes "take (length core) (us @ 32 # r) = core" and "32 \<notin> set core"
  shows "length core \<le> length us"
proof (rule ccontr)
  assume "\<not> length core \<le> length us"
  then have l: "length us < length core" by simp
  then have "take (length core) (us @ 32 # r) ! length us = (us @ 32 # r) ! length us"
    by (rule nth_take)
  also have "\<dots> = 32" by (rule nth_append_length)
  finally have "core ! length us = 32" using assms(1) by simp
  with l assms(2) show False by (metis nth_mem)
qed

lemma replace_block_free:
  assumes "has_cores U q C" and "\<not> isword U 32"
    and "word_ahead U (m @ r) \<longrightarrow> \<not> ends_word U l"
    and "ends_word U (l @ m) \<longrightarrow> \<not> word_ahead U r"
    and "\<not> matches_in U q (l @ m @ r)"
  shows "\<not> matches_in U q (l @ [32] @ r)"
proof
  assume "matches_in U q (l @ [32] @ r)"
  then obtain a b where ab: "l @ [32] @ r = a @ b"
    and "match_at U q (if a = [] then None else Some (last a)) b \<noteq> None"
    unfolding matches_in_def by blast
  then obtain core where ea: "\<not> ends_word U a" and core: "core \<in> C"
    and tk: "take (length core) b = core" and wa: "\<not> word_ahead U (drop (length core) b)"
    unfolding core_match [OF assms(1)] by blast
  note cp = core_props [OF assms(1) core]
  have hb: "b \<noteq> []" "hd b = hd core"
    using tk cp(1) by (cases b; cases core; auto)+
  have not32: "b \<noteq> 32 # t" for t
    using hb cp(2) assms(2) by auto
  have found: False if "l @ m @ r = a' @ b'" "\<not> ends_word U a'" "take (length core) b' = core"
    "\<not> word_ahead U (drop (length core) b')" for a' b'
  proof -
    from that(2-4) core have "match_at U q (if a' = [] then None else Some (last a')) b' \<noteq> None"
      unfolding core_match [OF assms(1)] by blast
    with that(1) assms(5) show False unfolding matches_in_def by blast
  qed
  from ab obtain us where "(l = a @ us \<and> us @ [32] @ r = b) \<or> (l @ us = a \<and> [32] @ r = us @ b)"
    unfolding append_eq_append_conv2 by blast
  then show False
  proof
    assume A: "l = a @ us \<and> us @ [32] @ r = b"
    then have b: "b = us @ 32 # r" and l: "l = a @ us" by simp_all
    from not32 b have us: "us \<noteq> []" by (cases us) auto
    from tk b cp(4) have le: "length core \<le> length us" by (intro core_within) simp_all
    then have tu: "take (length core) us = core" using tk b by simp
    have 1: "l @ m @ r = a @ (us @ m @ r)" by (simp add: l)
    have 2: "take (length core) (us @ m @ r) = core" using le tu by simp
    have 3: "\<not> word_ahead U (drop (length core) (us @ m @ r))"
    proof (cases "length core < length us")
      case True
      then obtain c t where d: "drop (length core) us = c # t"
        by (cases "drop (length core) us") auto
      from wa show ?thesis
        using le by (simp add: b d word_ahead_def)
    next
      case False
      with le have eq: "length core = length us" by simp
      with tu have "us = core" by simp
      with cp us have "ends_word U l" by (simp add: l ends_word_def)
      with assms(3) have "\<not> word_ahead U (m @ r)" by blast
      then show ?thesis by (simp add: eq)
    qed
    from found [OF 1 ea 2 3] show False .
  next
    assume B: "l @ us = a \<and> [32] @ r = us @ b"
    then have a: "a = l @ us" and e: "32 # r = us @ b" by simp_all
    from e not32 obtain us' where us: "us = 32 # us'" and r: "r = us' @ b"
      by (cases us) auto
    have 1: "l @ m @ r = (l @ m @ us') @ b" by (simp add: r)
    have 2: "\<not> ends_word U (l @ m @ us')"
    proof (cases "us' = []")
      case True
      have "word_ahead U b" using hb cp(2) by (cases b) (auto simp: word_ahead_def)
      with assms(4) True r show ?thesis by auto
    next
      case False
      with ea show ?thesis by (simp add: a us ends_word_def)
    qed
    from found [OF 1 2 tk wa] show False .
  qed
qed

lemma match_consumed:
  assumes "match_at U r p s = Some (p', s', g)" and "length s' < length s"
  obtains m where "s = m @ s'" "m \<noteq> []" "p' = Some (last m)"
proof -
  from match_at_sound [OF assms(1)] obtain m where m: "s = m @ s'"
    and p': "p' = (if m = [] then p else Some (last m))"
    unfolding reach_def by blast
  from m assms(2) have "m \<noteq> []" by auto
  with m p' that show thesis by simp
qed

lemma ends_word_snoc: "ends_word U (l @ [c]) \<longleftrightarrow> isword U c"
  by (simp add: ends_word_def)

lemma ends_word_append: "m \<noteq> [] \<Longrightarrow> ends_word U (l @ m) \<longleftrightarrow> isword U (last m)"
  by (simp add: ends_word_def)

lemma re_sub_from_free:
  assumes "has_cores U q C" and "\<not> isword U 32" and "matches_blocks U r"
  shows "(word_ahead U s \<longrightarrow> (ends_word U l \<longleftrightarrow> word_before U p)) \<Longrightarrow>
     \<not> matches_in U q (l @ s) \<Longrightarrow>
     \<not> matches_in U q (l @ re_sub_from U r [TChr 32] p s)"
proof (induction "length s" arbitrary: s l p rule: less_induct)
  case less
  show ?case
  proof (cases s)
    case Nil
    with less.prems show ?thesis by simp
  next
    case (Cons c cs)
    have copy: "\<not> matches_in U q (l @ c # re_sub_from U r [TChr 32] (Some c) cs)"
    proof -
      have "\<not> matches_in U q ((l @ [c]) @ re_sub_from U r [TChr 32] (Some c) cs)"
      proof (rule less.hyps)
        show "length cs < length s" by (simp add: Cons)
        show "word_ahead U cs \<longrightarrow> (ends_word U (l @ [c]) \<longleftrightarrow> word_before U (Some c))"
          by (simp add: ends_word_snoc word_before_def)
        show "\<not> matches_in U q ((l @ [c]) @ cs)"
          using less.prems(2) by (simp add: Cons)
      qed
      then show ?thesis by simp
    qed
    show ?thesis
    proof (cases "match_at U r p s")
      case None
      with copy show ?thesis by (simp add: Cons)
    next
      case (Some res)
      obtain p' s' g where res: "res = (p', s', g)" by (cases res)
      from Some res have m: "match_at U r p s = Some (p', s', g)" by simp
      from assms(3) m have len: "length s' < length s"
        and b1: "word_ahead U s \<longrightarrow> \<not> word_before U p"
        and b2: "word_before U p' \<longrightarrow> \<not> word_ahead U s'"
        unfolding matches_blocks_def by blast+
      from match_consumed [OF m len] obtain mm where mm: "s = mm @ s'" "mm \<noteq> []" "p' = Some (last mm)"
        by blast
      have wl: "word_before U p' \<longleftrightarrow> isword U (last mm)"
        by (simp add: mm(3) word_before_def)
      have step: "\<not> matches_in U q (l @ [32] @ s')"
      proof (rule replace_block_free [OF assms(1,2)])
        show "word_ahead U (mm @ s') \<longrightarrow> \<not> ends_word U l"
          using b1 less.prems(1) unfolding mm(1) [symmetric] by blast
        show "ends_word U (l @ mm) \<longrightarrow> \<not> word_ahead U s'"
          using b2 wl by (simp add: ends_word_append [OF mm(2)])
        show "\<not> matches_in U q (l @ mm @ s')"
          using less.prems(2) by (simp add: mm(1))
      qed
      have "\<not> matches_in U q ((l @ [32]) @ re_sub_from U r [TChr 32] p' s')"
      proof (rule less.hyps [OF len])
        show "word_ahead U s' \<longrightarrow> (ends_word U (l @ [32]) \<longleftrightarrow> word_before U p')"
          using b2 assms(2) by (auto simp: ends_word_snoc)
        show "\<not> matches_in U q ((l @ [32]) @ s')"
          using step by simp
      qed
      moreover have "re_sub_from U r [TChr 32] p s = 32 # re_sub_from U r [TChr 32] p' s'"
        using m len unfolding Cons by simp
      ultimately show ?thesis by simp
    qed
  qed
qed

lemma re_sub_from_removes:
  assumes "has_cores U q C" and "\<not> isword U 32" and "matches_blocks U q"
  shows "(word_ahead U s \<longrightarrow> (ends_word U l \<longleftrightarrow> word_before U p)) \<Longrightarrow>
     (\<And>a b. l @ s = a @ b \<Longrightarrow> length a < length l \<Longrightarrow>
        match_at U q (if a = [] then None else Some (last a)) b = None) \<Longrightarrow>
     \<not> matches_in U q (l @ re_sub_from U q [TChr 32] p s)"
proof (induction "length s" arbitrary: s l p rule: less_induct)
  case less
  note inv = less.prems(1) and early = less.prems(2)
  have core_ahead: "word_ahead U b" if "core \<in> C" "take (length core) b = core" for core b
  proof -
    from core_props [OF assms(1) that(1)] that(2) obtain c t where "b = c # t" "c = hd core"
      by (cases b; cases core) auto
    with core_props(2) [OF assms(1) that(1)] show ?thesis by (simp add: word_ahead_def)
  qed
  show ?case
  proof (cases s)
    case Nil
    show ?thesis
    proof
      assume "matches_in U q (l @ re_sub_from U q [TChr 32] p s)"
      then obtain a b where ab: "l = a @ b"
        and m: "match_at U q (if a = [] then None else Some (last a)) b \<noteq> None"
        unfolding matches_in_def Nil by auto
      show False
      proof (cases "b = []")
        case True
        with m core_props(1) [OF assms(1)] show False
          unfolding core_match [OF assms(1)] by auto
      next
        case False
        with ab have "length a < length l" by simp
        from early [of a b, OF _ this] ab m show False by (simp add: Nil)
      qed
    qed
  next
    case (Cons c cs)
    have here: "match_at U q (if l = [] then None else Some (last l)) s = None"
      if "match_at U q p s = None"
    proof (rule ccontr)
      assume "match_at U q (if l = [] then None else Some (last l)) s \<noteq> None"
      then obtain core where e: "\<not> ends_word U l" and c: "core \<in> C" "take (length core) s = core"
        "\<not> word_ahead U (drop (length core) s)"
        unfolding core_match [OF assms(1)] by blast
      from core_ahead [OF c(1,2)] inv e have "\<not> word_before U p" by blast
      with c have "match_at U q p s \<noteq> None"
        using assms(1) unfolding has_cores_def by blast
      with that show False by simp
    qed
    show ?thesis
    proof (cases "match_at U q p s")
      case None
      have "\<not> matches_in U q ((l @ [c]) @ re_sub_from U q [TChr 32] (Some c) cs)"
      proof (rule less.hyps)
        show "length cs < length s" by (simp add: Cons)
        show "word_ahead U cs \<longrightarrow> (ends_word U (l @ [c]) \<longleftrightarrow> word_before U (Some c))"
          by (simp add: ends_word_snoc word_before_def)
        fix a b assume ab: "(l @ [c]) @ cs = a @ b" and la: "length a < length (l @ [c])"
        show "match_at U q (if a = [] then None else Some (last a)) b = None"
        proof (cases "length a < length l")
          case True
          from early [of a b, OF _ True] ab show ?thesis by (simp add: Cons)
        next
          case False
          with la have "length a = length l" by simp
          with ab have "a = l" "b = s" by (simp_all add: Cons)
          from here [OF None] show ?thesis unfolding \<open>a = l\<close> \<open>b = s\<close> .
        qed
      qed
      with None show ?thesis by (simp add: Cons)
    next
      case (Some res)
      obtain p' s' g where res: "res = (p', s', g)" by (cases res)
      from Some res have m: "match_at U q p s = Some (p', s', g)" by simp
      from assms(3) m have len: "length s' < length s"
        and b1: "word_ahead U s \<longrightarrow> \<not> word_before U p"
        and b2: "word_before U p' \<longrightarrow> \<not> word_ahead U s'"
        unfolding matches_blocks_def by blast+
      from match_consumed [OF m len] obtain mm where mm: "s = mm @ s'" "mm \<noteq> []" "p' = Some (last mm)"
        by blast
      have "\<not> matches_in U q ((l @ [32]) @ re_sub_from U q [TChr 32] p' s')"
      proof (rule less.hyps [OF len])
        show "word_ahead U s' \<longrightarrow> (ends_word U (l @ [32]) \<longleftrightarrow> word_before U p')"
          using b2 assms(2) by (auto simp: ends_word_snoc)
        fix a b assume ab: "(l @ [32]) @ s' = a @ b" and la: "length a < length (l @ [32])"
        show "match_at U q (if a = [] then None else Some (last a)) b = None"
        proof (rule ccontr)
          assume "match_at U q (if a = [] then None else Some (last a)) b \<noteq> None"
          then obtain core where e: "\<not> ends_word U a" and c: "core \<in> C" "take (length core) b = core"
            "\<not> word_ahead U (drop (length core) b)"
            unfolding core_match [OF assms(1)] by blast
          note cp = core_props [OF assms(1) c(1)]
          from ab la obtain us where l: "l = a @ us" and b: "b = us @ 32 # s'"
            by (auto simp: append_eq_append_conv2 append_eq_Cons_conv Cons_eq_append_conv)
          have us: "us \<noteq> []"
          proof
            assume "us = []"
            with b core_ahead [OF c(1,2)] assms(2) show False by (simp add: word_ahead_def)
          qed
          then have la': "length a < length l" by (simp add: l)
          from c(2) b cp(4) have le: "length core \<le> length us" by (intro core_within) simp_all
          then have tu: "take (length core) us = core" using c(2) b by simp
          have old: "match_at U q (if a = [] then None else Some (last a)) (us @ s) = None"
            by (rule early [OF _ la']) (simp add: l)
          have "take (length core) (us @ s) = core" using le tu by simp
          with old e c(1) have ahead: "word_ahead U (drop (length core) (us @ s))"
            unfolding core_match [OF assms(1), of a "us @ s", symmetric]
            using core_match [OF assms(1), of a "us @ s"] by blast
          show False
          proof (cases "length core < length us")
            case True
            then obtain x t where d: "drop (length core) us = x # t"
              by (cases "drop (length core) us") auto
            from ahead c(3) le show False by (simp add: b d word_ahead_def)
          next
            case False
            with le have eq: "length core = length us" by simp
            with tu have "us = core" by simp
            with cp us have el: "ends_word U l" by (simp add: l ends_word_def)
            from ahead eq have "word_ahead U s" by simp
            with b1 inv el show False by blast
          qed
        qed
      qed
      moreover have "re_sub_from U q [TChr 32] p s = 32 # re_sub_from U q [TChr 32] p' s'"
        using m len unfolding Cons by simp
      ultimately show ?thesis by simp
    qed
  qed
qed

lemma suffix_pattern_blocks:
  assumes "unicode_ok U" and "pat \<in> set SUFFIX_PATTERNS"
  shows "(\<exists>C. has_cores U pat C) \<and> matches_blocks U pat"
proof -
  have word: "(\<exists>C. has_cores U (word_re w) C) \<and> matches_blocks U (word_re w)"
    if "w \<noteq> []" "\<forall>c \<in> set w. 65 \<le> c \<and> c \<le> 90" for w
  proof -
    have 1: "\<forall>c \<in> set w. isword U c" using that(2) isword_ascii(1) [OF assms(1)] by blast
    have 2: "32 \<notin> set w" using that(2) by auto
    from word_has_cores [OF that(1) 1 2] word_matches_blocks [OF that(1) 1]
    show ?thesis by blast
  qed
  have dotted: "(\<exists>C. has_cores U (dotted_re x y z) C) \<and> matches_blocks U (dotted_re x y z)"
    if "65 \<le> x" "x \<le> 90" "65 \<le> y" "y \<le> 90" "65 \<le> z" "z \<le> 90" for x y z
  proof -
    note w = isword_ascii [OF assms(1)]
    have x: "isword U x" and y: "isword U y" and z: "isword U z"
      using that by (auto intro: w(1))
    have "has_cores U (dotted_re x y z) (dotted_cores x y z)"
      by (rule dotted_has_cores [OF x y z w(4) w(2)]) (use that in auto)
    moreover have "matches_blocks U (dotted_re x y z)"
      by (rule dotted_matches_blocks [OF x y z w(4) w(2)])
    ultimately show ?thesis by blast
  qed
  have w: "seq (Bnd # lit cs @ [Bnd]) = word_re (str cs)" for cs
    by (simp add: word_re_def lit_def str_def comp_def)
  from assms(2) consider
      "pat = word_re (str ''LTD'')" | "pat = word_re (str ''LIMITED'')" | "pat = word_re (str ''LLP'')"
    | "pat = word_re (str ''PLC'')" | "pat = word_re (str ''INC'')" | "pat = word_re (str ''CORP'')"
    | "pat = dotted_re 76 76 80" | "pat = dotted_re 76 84 68" | "pat = dotted_re 80 76 67"
    unfolding SUFFIX_PATTERNS_def SUFFIXES_def w
    by (auto simp: dotted_re_def lit_def)
  then show ?thesis
  proof cases
    case 1 then show ?thesis using word [of "str ''LTD''"] by (simp add: str_def)
  next
    case 2 then show ?thesis using word [of "str ''LIMITED''"] by (simp add: str_def)
  next
    case 3 then show ?thesis using word [of "str ''LLP''"] by (simp add: str_def)
  next
    case 4 then show ?thesis using word [of "str ''PLC''"] by (simp add: str_def)
  next
    case 5 then show ?thesis using word [of "str ''INC''"] by (simp add: str_def)
  next
    case 6 then show ?thesis using word [of "str ''CORP''"] by (simp add: str_def)
  next
    case 7 then show ?thesis using dotted [of 76 76 80] by simp
  next
    case 8 then show ?thesis using dotted [of 76 84 68] by simp
  next
    case 9 then show ?thesis using dotted [of 80 76 67] by simp
  qed
qed

lemma fold_removes:
  assumes "unicode_ok U"
  shows "set pats \<subseteq> set SUFFIX_PATTERNS \<Longrightarrow> q \<in> set pats \<Longrightarrow>
     \<not> matches_in U q (fold (\<lambda>pat pad. re_sub U pat [TChr 32] pad) pats pad)"
proof (induction pats arbitrary: q rule: rev_induct)
  case Nil
  then show ?case by simp
next
  case (snoc r pats)
  let ?x = "fold (\<lambda>pat pad. re_sub U pat [TChr 32] pad) pats pad"
  note nsp = isword_ascii(3) [OF assms]
  from snoc.prems(1) have r: "r \<in> set SUFFIX_PATTERNS" and sub: "set pats \<subseteq> set SUFFIX_PATTERNS"
    by simp_all
  from snoc.prems have q: "q \<in> set SUFFIX_PATTERNS" by auto
  from suffix_pattern_blocks [OF assms r] obtain Cr where cr: "has_cores U r Cr"
    and br: "matches_blocks U r" by blast
  from suffix_pattern_blocks [OF assms q] obtain Cq where cq: "has_cores U q Cq" by blast
  have "\<not> matches_in U q ([] @ re_sub_from U r [TChr 32] None ?x)"
  proof (cases "q = r")
    case True
    show ?thesis unfolding True
      by (rule re_sub_from_removes [OF cr nsp br]) (simp_all add: ends_word_def word_before_def)
  next
    case False
    with snoc.prems(2) have "q \<in> set pats" by simp
    from snoc.IH [OF sub this] have "\<not> matches_in U q ([] @ ?x)" by simp
    then show ?thesis
      by (intro re_sub_from_free [OF cq nsp br]) (simp_all add: ends_word_def word_before_def)
  qed
  then show ?case by (simp add: re_sub_def)
qed

lemma re_sub_free_id:
  assumes "\<not> matches_in U q x"
  shows "re_sub U q t x = x"
  unfolding re_sub_def
proof (rule re_sub_from_id)
  fix a b assume "x = a @ b"
  with assms show "match_at U q (if a = [] then None else Some (last a)) b = None"
    unfolding matches_in_def by blast
qed

lemma fold_free_id:
  "(\<And>q. q \<in> set pats \<Longrightarrow> \<not> matches_in U q x) \<Longrightarrow>
   fold (\<lambda>pat pad. re_sub U pat t pad) pats x = x"
  by (induction pats) (simp_all add: re_sub_free_id)

lemma dropWhile_decomp: "\<exists>a. s = a @ dropWhile P s \<and> (\<forall>c \<in> set a. P c)"
  using takeWhile_dropWhile_id [of P s] set_takeWhileD [of _ P s] by metis

lemma strip_by_decomp: "\<exists>a b. s = a @ strip_by P s @ b \<and> (\<forall>c \<in> set a. P c) \<and> (\<forall>c \<in> set b. P c)"
proof -
  from dropWhile_decomp [of s P] obtain a where a: "s = a @ dropWhile P s" "\<forall>c \<in> set a. P c"
    by blast
  from dropWhile_decomp [of "rev (dropWhile P s)" P] obtain b
    where b: "rev (dropWhile P s) = b @ dropWhile P (rev (dropWhile P s))" "\<forall>c \<in> set b. P c"
    by blast
  from b(1) have "dropWhile P s = strip_by P s @ rev b"
    unfolding strip_by_def by (metis rev_append rev_rev_ident)
  with a b(2) have "s = a @ strip_by P s @ rev b \<and> (\<forall>c \<in> set a. P c) \<and> (\<forall>c \<in> set (rev b). P c)"
    by simp
  then show ?thesis by blast
qed

lemma nonword_ends:
  assumes "\<forall>c \<in> set a. \<not> isword U c"
  shows "\<not> ends_word U (l @ a) \<or> (a = [] \<and> ends_word U l)" and "\<not> word_ahead U (a @ r) \<or> (a = [] \<and> word_ahead U r)"
proof -
  show "\<not> ends_word U (l @ a) \<or> (a = [] \<and> ends_word U l)"
    using assms by (cases a rule: rev_cases) (auto simp: ends_word_def)
  show "\<not> word_ahead U (a @ r) \<or> (a = [] \<and> word_ahead U r)"
    using assms by (cases a) (auto simp: word_ahead_def)
qed

lemma trim_free:
  assumes "has_cores U q C" and "\<not> isword U 32"
    and "\<forall>c \<in> set a. \<not> isword U c" and "\<forall>c \<in> set b. \<not> isword U c"
    and "\<not> matches_in U q (a @ t @ b)"
  shows "\<not> matches_in U q ([32] @ t @ [32])"
proof -
  have "\<not> matches_in U q ([] @ [32] @ (t @ b))"
  proof (rule replace_block_free [OF assms(1,2)])
    show "word_ahead U (a @ t @ b) \<longrightarrow> \<not> ends_word U []" by (simp add: ends_word_def)
    show "ends_word U ([] @ a) \<longrightarrow> \<not> word_ahead U (t @ b)"
      using nonword_ends(1) [OF assms(3), of "[]"] by (auto simp: ends_word_def)
    show "\<not> matches_in U q ([] @ a @ t @ b)" using assms(5) by simp
  qed
  then have 1: "\<not> matches_in U q (([32] @ t) @ b @ [])" by simp
  have "\<not> matches_in U q (([32] @ t) @ [32] @ [])"
  proof (rule replace_block_free [OF assms(1,2) _ _ 1])
    show "word_ahead U (b @ []) \<longrightarrow> \<not> ends_word U ([32] @ t)"
      using nonword_ends(2) [OF assms(4), of "[]"] by (auto simp: word_ahead_def)
    show "ends_word U (([32] @ t) @ b) \<longrightarrow> \<not> word_ahead U []" by (simp add: word_ahead_def)
  qed
  then show ?thesis by simp
qed

lemma collapse_free:
  assumes "has_cores U q C" and "\<not> isword U 32" and "\<And>c. isspace c \<Longrightarrow> \<not> isword U c"
  shows "\<not> matches_in U q (l @ s @ r) \<Longrightarrow> \<not> matches_in U q (l @ collapse s @ r)"
proof (induction s arbitrary: l rule: collapse.induct)
  case 1
  then show ?case by simp
next
  case (2 c cs)
  show ?case
  proof (cases "isspace c")
    case True
    let ?m = "c # takeWhile isspace cs"
    let ?d = "dropWhile isspace cs"
    have m: "\<forall>x \<in> set ?m. \<not> isword U x"
      using True assms(3) by (auto dest: set_takeWhileD)
    have s: "c # cs = ?m @ ?d" by simp
    have "\<not> matches_in U q (l @ [32] @ (?d @ r))"
    proof (rule replace_block_free [OF assms(1,2)])
      show "word_ahead U (?m @ ?d @ r) \<longrightarrow> \<not> ends_word U l"
        using nonword_ends(2) [OF m, of "?d @ r"] by simp
      show "ends_word U (l @ ?m) \<longrightarrow> \<not> word_ahead U (?d @ r)"
        using nonword_ends(1) [OF m, of l] by simp
      have "l @ ?m @ ?d @ r = l @ (c # cs) @ r" by simp
      with "2.prems" show "\<not> matches_in U q (l @ ?m @ ?d @ r)" by (simp only: simp_thms)
    qed
    then have "\<not> matches_in U q ((l @ [32]) @ ?d @ r)" by simp
    from "2.IH"(1) [OF True this] True show ?thesis by simp
  next
    case False
    from "2.prems" have "\<not> matches_in U q ((l @ [c]) @ cs @ r)" by simp
    from "2.IH"(2) [OF False this] False show ?thesis by simp
  qed
qed

lemma nonempty_match:
  assumes "unicode_ok U" and "r = WHITESPACE_RUN \<or> r = PARENTHESES \<or> r \<in> set SUFFIX_PATTERNS"
    and "match_at U r p s = Some (p', s', g)"
  shows "length s' < length s"
proof -
  from assms(2) consider "r = WHITESPACE_RUN" | "r = PARENTHESES" | "r \<in> set SUFFIX_PATTERNS"
    by blast
  then show ?thesis
  proof cases
    case 1
    from whitespace_matches_blocks [of U] isword_space [OF assms(1)]
    have "matches_blocks U WHITESPACE_RUN" by blast
    with assms(3) 1 show ?thesis unfolding matches_blocks_def by blast
  next
    case 2
    let ?d = "dropWhile isspace s"
    from assms(3) obtain c r2 where d: "?d = c # r2"
      unfolding 2 match_parentheses by (cases ?d) simp_all
    let ?e = "dropWhile (\<lambda>c. c \<noteq> 41) r2"
    from assms(3) have e: "?e \<noteq> []" and s': "s' = dropWhile isspace (tl ?e)"
      unfolding 2 match_parentheses d by (simp_all split: if_splits)
    have "length s' \<le> length (tl ?e)" unfolding s' by (rule length_dropWhile_le)
    also have "\<dots> < length ?e" using e by (cases ?e) simp_all
    also have "\<dots> \<le> length r2" by (rule length_dropWhile_le)
    also have "\<dots> \<le> length ?d" by (simp add: d)
    also have "\<dots> \<le> length s" by (rule length_dropWhile_le)
    finally show ?thesis .
  next
    case 3
    from suffix_pattern_blocks [OF assms(1) 3] assms(3) show ?thesis
      unfolding matches_blocks_def by blast
  qed
qed

lemma matches_from_iff:
  "matches_from U q p s \<longleftrightarrow>
     (\<exists>a b. s = a @ b \<and> match_at U q (if a = [] then p else Some (last a)) b \<noteq> None)"
proof (induction s arbitrary: p)
  case Nil
  show ?case by simp
next
  case (Cons c s)
  note IH = Cons.IH
  show ?case
  proof
    assume "matches_from U q p (c # s)"
    then consider "match_at U q p (c # s) \<noteq> None" | "matches_from U q (Some c) s" by auto
    then show "\<exists>a b. c # s = a @ b \<and> match_at U q (if a = [] then p else Some (last a)) b \<noteq> None"
    proof cases
      case 1
      then show ?thesis by (intro exI [of _ "[]"] exI [of _ "c # s"]) simp
    next
      case 2
      with IH obtain a b where "s = a @ b"
        "match_at U q (if a = [] then Some c else Some (last a)) b \<noteq> None" by blast
      then show ?thesis by (intro exI [of _ "c # a"] exI [of _ b]) auto
    qed
  next
    assume "\<exists>a b. c # s = a @ b \<and> match_at U q (if a = [] then p else Some (last a)) b \<noteq> None"
    then obtain a b where ab: "c # s = a @ b"
      and m: "match_at U q (if a = [] then p else Some (last a)) b \<noteq> None" by blast
    show "matches_from U q p (c # s)"
    proof (cases a)
      case Nil
      with ab m have "match_at U q p (c # s) \<noteq> None" by simp
      then show ?thesis by simp
    next
      case (Cons x a')
      with ab have x: "x = c" and s: "s = a' @ b" by simp_all
      from m Cons x have "match_at U q (if a' = [] then Some c else Some (last a')) b \<noteq> None"
        by (cases "a' = []") simp_all
      with IH s have "matches_from U q (Some c) s" by blast
      then show ?thesis by simp
    qed
  qed
qed

lemma matches_in_from: "matches_in U q x \<longleftrightarrow> matches_from U q None x"
  by (simp add: matches_from_iff matches_in_def)

lemma re_sub_from_le:
  assumes "\<And>p s p' s' g. match_at U q p s = Some (p', s', g) \<Longrightarrow> length s' < length s \<Longrightarrow>
      length (filter P (expand t g)) + length (filter P s') \<le> length (filter P s)"
  shows "length (filter P (re_sub_from U q t p s)) \<le> length (filter P s)"
proof (induction "length s" arbitrary: s p rule: less_induct)
  case less
  show ?case
  proof (cases s)
    case Nil
    then show ?thesis by simp
  next
    case (Cons c cs)
    have copy: "length (filter P (c # re_sub_from U q t (Some c) cs)) \<le> length (filter P s)"
      using less.hyps [of cs "Some c"] by (simp add: Cons)
    show ?thesis
    proof (cases "match_at U q p s")
      case None
      with copy show ?thesis by (simp add: Cons)
    next
      case (Some res)
      obtain p' s' g where res: "res = (p', s', g)" by (cases res)
      from Some res have m: "match_at U q p s = Some (p', s', g)" by simp
      show ?thesis
      proof (cases "length s' < length s")
        case True
        have "re_sub_from U q t p s = expand t g @ re_sub_from U q t p' s'"
          using m True unfolding Cons by simp
        with assms [OF m True] less.hyps [OF True, of p'] show ?thesis by simp
      next
        case False
        then have "re_sub_from U q t p s = c # re_sub_from U q t (Some c) cs"
          using m unfolding Cons by simp
        with copy show ?thesis by simp
      qed
    qed
  qed
qed

lemma re_sub_from_less:
  assumes "\<And>p s p' s' g. match_at U q p s = Some (p', s', g) \<Longrightarrow>
      length s' < length s \<and>
      length (filter P (expand t g)) + length (filter P s') < length (filter P s)"
  shows "matches_from U q p s \<Longrightarrow>
     length (filter P (re_sub_from U q t p s)) < length (filter P s)"
proof (induction s arbitrary: p)
  case Nil
  then obtain r where "match_at U q p [] = Some r" by auto
  with assms [of p "[]" "fst r" "fst (snd r)" "snd (snd r)"] show ?case by simp
next
  case (Cons c cs)
  show ?case
  proof (cases "match_at U q p (c # cs)")
    case None
    with Cons.prems have "matches_from U q (Some c) cs" by simp
    from Cons.IH [OF this] None show ?thesis by simp
  next
    case (Some res)
    obtain p' s' g where res: "res = (p', s', g)" by (cases res)
    from Some res have m: "match_at U q p (c # cs) = Some (p', s', g)" by simp
    from assms [OF m] have len: "length s' < length (c # cs)"
      and lt: "length (filter P (expand t g)) + length (filter P s') < length (filter P (c # cs))"
      by blast+
    have "length (filter P (re_sub_from U q t p' s')) \<le> length (filter P s')"
      by (rule re_sub_from_le) (use assms in \<open>simp add: less_imp_le\<close>)
    moreover have "re_sub_from U q t p (c # cs) = expand t g @ re_sub_from U q t p' s'"
      using m len by simp
    ultimately show ?thesis using lt by simp
  qed
qed

lemma filter_dropWhile_le: "length (filter P (dropWhile Q s)) \<le> length (filter P s)"
proof -
  have "filter P s = filter P (takeWhile Q s) @ filter P (dropWhile Q s)"
    by (metis filter_append takeWhile_dropWhile_id)
  then show ?thesis by simp
qed

lemma filter_tl_le: "length (filter P (tl s)) \<le> length (filter P s)"
  by (cases s) simp_all

lemma parentheses_step:
  assumes "match_at U PARENTHESES p s = Some (p', s', g)"
  shows "length s' < length s \<and>
     length (filter (\<lambda>c. c = 40) (expand [TChr 32, TGrp, TChr 32] g)) +
     length (filter (\<lambda>c. c = 40) s') < length (filter (\<lambda>c. c = 40) s)"
proof -
  let ?m = "\<lambda>x. length (filter (\<lambda>c. c = (40::int)) x)"
  let ?d = "dropWhile isspace s"
  from assms obtain c r2 where d: "?d = c # r2"
    unfolding match_parentheses by (cases ?d) simp_all
  let ?e = "dropWhile (\<lambda>c. c \<noteq> 41) r2"
  from assms have c: "c = 40" and e: "?e \<noteq> []" and s': "s' = dropWhile isspace (tl ?e)"
    and g: "g = takeWhile (\<lambda>c. c \<noteq> 41) r2"
    unfolding match_parentheses d by (simp_all split: if_splits)
  have "length s' \<le> length (tl ?e)" unfolding s' by (rule length_dropWhile_le)
  also have "\<dots> < length ?e" using e by (cases ?e) simp_all
  also have "\<dots> \<le> length r2" by (rule length_dropWhile_le)
  also have "\<dots> \<le> length ?d" by (simp add: d)
  also have "\<dots> \<le> length s" by (rule length_dropWhile_le)
  finally have len: "length s' < length s" .
  have "?m s' \<le> ?m (tl ?e)" unfolding s' by (rule filter_dropWhile_le)
  also have "\<dots> \<le> ?m ?e" by (rule filter_tl_le)
  finally have 1: "?m s' \<le> ?m ?e" .
  have "r2 = g @ ?e" by (simp add: g)
  then have "?m r2 = ?m g + ?m ?e" by (metis filter_append length_append)
  with 1 have "?m g + ?m s' < ?m ?d" by (simp add: d c)
  also have "\<dots> \<le> ?m s" by (rule filter_dropWhile_le)
  finally have "?m g + ?m s' < ?m s" .
  with len show ?thesis by simp
qed

lemma suffix_step:
  assumes "has_cores U q C" and "matches_blocks U q" and "\<not> isword U 32"
    and "match_at U q p s = Some (p', s', g)"
  shows "length s' < length s \<and>
     length (filter (isword U) (expand [TChr 32] g)) + length (filter (isword U) s') <
     length (filter (isword U) s)"
proof -
  from assms(2,4) have len: "length s' < length s" unfolding matches_blocks_def by blast
  from match_consumed [OF assms(4) len] obtain m where m: "s = m @ s'" "m \<noteq> []" by blast
  from assms(4) have "match_at U q p s \<noteq> None" by simp
  with assms(1) obtain core where "core \<in> C" "take (length core) s = core"
    unfolding has_cores_def by blast
  with core_props [OF assms(1), of core] have "isword U (hd s)"
    by (cases s; cases core) auto
  with m have "isword U (hd m)" by (cases m) simp_all
  with m(2) have "0 < length (filter (isword U) m)" by (cases m) simp_all
  with len assms(3) show ?thesis by (simp add: m(1))
qed

lemma re_sub_blank_le:
  assumes "\<not> P 32"
  shows "length (filter P (re_sub_from U q [TChr 32] p s)) \<le> length (filter P s)"
proof (rule re_sub_from_le)
  fix p s p' s' g assume "match_at U q p s = Some (p', s', g)"
  from match_at_sound [OF this] obtain pre where "s = pre @ s'" unfolding reach_def by blast
  then show "length (filter P (expand [TChr 32] g)) + length (filter P s') \<le> length (filter P s)"
    using assms by simp
qed

lemma fold_blank_le:
  assumes "\<not> P 32"
  shows "length (filter P (fold (\<lambda>pat pad. re_sub U pat [TChr 32] pad) pats x)) \<le> length (filter P x)"
proof (induction pats arbitrary: x)
  case Nil
  show ?case by simp
next
  case (Cons r pats)
  have "length (filter P (re_sub U r [TChr 32] x)) \<le> length (filter P x)"
    unfolding re_sub_def using assms by (rule re_sub_blank_le [of P])
  with Cons [of "re_sub U r [TChr 32] x"] show ?case by simp
qed

lemma strip_by_le: "length (filter P (strip_by Q s)) \<le> length (filter P s)"
proof -
  from strip_by_decomp [of s Q] obtain a b where "s = a @ strip_by Q s @ b" by blast
  then have "filter P s = filter P a @ filter P (strip_by Q s) @ filter P b"
    by (metis filter_append)
  then show ?thesis by simp
qed

lemma collapse_le:
  assumes "\<And>c. isspace c \<Longrightarrow> \<not> P c"
  shows "length (filter P (collapse s)) \<le> length (filter P s)"
proof (induction s rule: collapse.induct)
  case 1
  show ?case by simp
next
  case (2 c cs)
  show ?case
  proof (cases "isspace c")
    case True
    have "length (filter P (dropWhile isspace cs)) \<le> length (filter P cs)"
      by (rule filter_dropWhile_le)
    with 2(1) [OF True] True assms [OF True] assms [OF isspace_32] show ?thesis by simp
  next
    case False
    with 2(2) show ?thesis by simp
  qed
qed

lemma tail_le:
  assumes "\<And>c. isspace c \<Longrightarrow> \<not> P c"
  shows "length (filter P (normalise_with U pats name k)) \<le> length (filter P (unwrapped U name))"
proof -
  note n32 = assms [OF isspace_32]
  let ?b = "before_trim U pats name k"
  have "length (filter P (normalise_with U pats name k)) \<le>
      length (filter P (strip_chars (str '' .,-_[]{}'') ?b))"
    unfolding normalise_with_trim by (rule collapse_le [OF assms])
  also have "\<dots> \<le> length (filter P ?b)"
    unfolding strip_chars_def by (rule strip_by_le)
  also have "\<dots> \<le> length (filter P (unwrapped U name))"
  proof (cases k)
    case False
    then show ?thesis by (simp add: before_trim_unwrapped)
  next
    case True
    let ?pad = "[32] @ unwrapped U name @ [32]"
    have "length (filter P ?b) \<le>
        length (filter P (fold (\<lambda>pat pad. re_sub U pat [TChr 32] pad) pats ?pad))"
      using True strip_by_le [of P isspace]
      by (simp add: before_trim_unwrapped strip_suffix_patterns_def strip_def)
    also have "\<dots> \<le> length (filter P ?pad)" using n32 by (rule fold_blank_le [of P])
    also have "\<dots> = length (filter P (unwrapped U name))" using n32 by simp
    finally show ?thesis .
  qed
  finally show ?thesis .
qed

lemma shaped_steps:
  assumes "unicode_ok U" and "shaped U r"
  shows "unwrapped U r = re_sub U PARENTHESES [TChr 32, TGrp, TChr 32] r"
    and "strip_chars (str '' .,-_[]{}'') r = r" and "collapse r = r"
    and "strip ([32] @ r @ [32]) = r"
proof -
  from assms(2) have ends: "r = [] \<or> (hd r \<notin> set TRIMMED \<and> last r \<notin> set TRIMMED)"
    and cl: "\<forall>c \<in> set r. clean U c" and nd: "no_double r"
    and sp: "8217 \<notin> set r" "8211 \<notin> set r" "8212 \<notin> set r"
    by (simp_all add: shaped_def list_all_iff)
  have in32: "32 \<in> set TRIMMED" by (simp add: TRIMMED_def str_def)
  have ws: "r = [] \<or> (\<not> isspace (hd r) \<and> \<not> isspace (last r))"
  proof (cases r)
    case Nil
    then show ?thesis by simp
  next
    case (Cons c cs)
    then have "hd r \<in> set r" "last r \<in> set r" by simp_all
    with cl have "clean U (hd r)" "clean U (last r)" by blast+
    with ends in32 Cons show ?thesis by (auto simp: clean_def)
  qed
  have 1: "strip r = r" unfolding strip_def by (rule strip_by_id [OF ws])
  have 2: "replace 8212 45 (replace 8211 45 (replace 8217 39 r)) = r"
    using sp by (simp add: replace_id)
  show 3: "collapse r = r"
    by (rule collapse_id) (use cl nd in \<open>auto simp: clean_def\<close>)
  have 4: "upper U r = r"
    by (rule upper_id) (use cl in \<open>simp add: clean_def\<close>)
  show "unwrapped U r = re_sub U PARENTHESES [TChr 32, TGrp, TChr 32] r"
    by (simp add: unwrapped_def 1 2 3 4 re_sub_collapse)
  show "strip_chars (str '' .,-_[]{}'') r = r"
    unfolding strip_chars_def TRIMMED_def [symmetric] by (rule strip_by_id [OF ends])
  show "strip ([32] @ r @ [32]) = r"
    unfolding strip_def by (rule strip_pad [OF ws isspace_32])
qed

lemma normalise_shaped:
  assumes "unicode_ok U"
  shows "shaped U (normalise_with U pats name k)"
proof -
  let ?b = "before_trim U pats name k"
  let ?t = "strip_chars (str '' .,-_[]{}'') ?b"
  let ?r = "normalise_with U pats name k"
  have r: "?r = collapse ?t" by (rule normalise_with_trim)
  have t: "?t = strip_by (\<lambda>c. c \<in> set TRIMMED) ?b"
    by (simp add: strip_chars_def TRIMMED_def)
  have in32: "32 \<in> set TRIMMED" by (simp add: TRIMMED_def str_def)
  have cb: "\<forall>c \<in> set ?b. clean U c" by (rule before_trim_clean [OF assms(1)])
  have ct: "\<forall>c \<in> set ?t. clean U c"
    using cb set_strip_by unfolding t by blast
  have cr: "\<forall>c \<in> set ?r. clean U c"
    unfolding r using ct set_collapse [of ?t] clean_32 [OF assms(1)] by blast
  have ends: "?r = [] \<or> (hd ?r \<notin> set TRIMMED \<and> last ?r \<notin> set TRIMMED)"
  proof (cases "?t = []")
    case True
    then show ?thesis unfolding r by simp
  next
    case False
    from strip_by_ends [OF False [unfolded t]]
    have h: "hd ?t \<notin> set TRIMMED" and l: "last ?t \<notin> set TRIMMED"
      unfolding t by simp_all
    have "hd ?t \<in> set ?t" "last ?t \<in> set ?t" using False by simp_all
    with ct have "clean U (hd ?t)" "clean U (last ?t)" by blast+
    with h l in32 have nh: "\<not> isspace (hd ?t)" and nl: "\<not> isspace (last ?t)"
      by (auto simp: clean_def)
    from nh False have "hd (collapse ?t) = hd ?t" by (simp add: hd_collapse)
    moreover from nl False have "last (collapse ?t) = last ?t" by (simp add: last_collapse)
    ultimately show ?thesis unfolding r using h l by simp
  qed
  have nd: "no_double ?r" unfolding r by (rule no_double_collapse)
  have sp: "8217 \<notin> set ?r" "8211 \<notin> set ?r" "8212 \<notin> set ?r"
    using assms(1) by (intro normalise_avoids(3); simp add: upper_safe_def)+
  show ?thesis
    unfolding shaped_def using ends cr nd sp by (simp add: list_all_iff)
qed

lemma shaped_fixed:
  assumes "unicode_ok U" and "shaped U r" and "\<not> still_matches U k r"
  shows "normalise_with U SUFFIX_PATTERNS r k = r"
proof -
  note st = shaped_steps [OF assms(1,2)]
  from assms(3) have "\<not> matches_in U PARENTHESES r"
    by (simp add: still_matches_def matches_in_from)
  then have u: "unwrapped U r = r" by (simp add: st(1) re_sub_free_id)
  have 6: "strip_suffix_patterns U SUFFIX_PATTERNS r = r" if k
  proof -
    from assms(3) that have "\<And>q. q \<in> set SUFFIX_PATTERNS \<Longrightarrow> \<not> matches_in U q ([32] @ r @ [32])"
      by (auto simp: still_matches_def matches_in_from list_ex_iff)
    then have "fold (\<lambda>pat pad. re_sub U pat [TChr 32] pad) SUFFIX_PATTERNS ([32] @ r @ [32]) =
        [32] @ r @ [32]"
      by (rule fold_free_id)
    then show ?thesis
      by (simp only: strip_suffix_patterns_def st(4))
  qed
  have b: "before_trim U SUFFIX_PATTERNS r k = r"
    using 6 by (simp add: before_trim_unwrapped u)
  show ?thesis
    by (simp add: normalise_with_trim b st(2,3))
qed

lemma fold_less:
  assumes "unicode_ok U"
  shows "set pats \<subseteq> set SUFFIX_PATTERNS \<Longrightarrow> q \<in> set pats \<Longrightarrow> matches_in U q x \<Longrightarrow>
     length (filter (isword U) (fold (\<lambda>pat pad. re_sub U pat [TChr 32] pad) pats x)) <
     length (filter (isword U) x)"
proof (induction pats)
  case Nil
  then show ?case by simp
next
  case (Cons r pats)
  note nsp = isword_ascii(3) [OF assms]
  from Cons.prems(1) have r: "r \<in> set SUFFIX_PATTERNS" and sub: "set pats \<subseteq> set SUFFIX_PATTERNS"
    by simp_all
  from suffix_pattern_blocks [OF assms r] obtain C where c: "has_cores U r C"
    and b: "matches_blocks U r" by blast
  show ?case
  proof (cases "matches_in U r x")
    case True
    then have mf: "matches_from U r None x" by (simp add: matches_in_from)
    have "length (filter (isword U) (re_sub_from U r [TChr 32] None x)) < length (filter (isword U) x)"
    proof (rule re_sub_from_less [where P = "isword U"])
      fix p s p' s' g assume "match_at U r p s = Some (p', s', g)"
      then show "length s' < length s \<and>
          length (filter (isword U) (expand [TChr 32] g)) + length (filter (isword U) s') <
          length (filter (isword U) s)"
        by (rule suffix_step [OF c b nsp])
    qed (rule mf)
    then have "length (filter (isword U) (re_sub U r [TChr 32] x)) < length (filter (isword U) x)"
      by (simp add: re_sub_def)
    moreover have "length (filter (isword U)
        (fold (\<lambda>pat pad. re_sub U pat [TChr 32] pad) pats (re_sub U r [TChr 32] x))) \<le>
        length (filter (isword U) (re_sub U r [TChr 32] x))"
      using nsp by (rule fold_blank_le [of "isword U"])
    ultimately show ?thesis by simp
  next
    case False
    then have id: "re_sub U r [TChr 32] x = x" by (rule re_sub_free_id)
    from False Cons.prems(2,3) have "q \<in> set pats" by auto
    from Cons.IH [OF sub this Cons.prems(3)] show ?thesis by (simp add: id)
  qed
qed

lemma shaped_changed:
  assumes "unicode_ok U" and "shaped U r" and "still_matches U k r"
  shows "normalise_with U SUFFIX_PATTERNS r k \<noteq> r"
proof (cases "matches_in U PARENTHESES r")
  case True
  let ?m = "\<lambda>x. length (filter (\<lambda>c. c = (40::int)) x)"
  from True have mf: "matches_from U PARENTHESES None r" by (simp add: matches_in_from)
  have "?m (re_sub_from U PARENTHESES [TChr 32, TGrp, TChr 32] None r) < ?m r"
  proof (rule re_sub_from_less [where P = "\<lambda>c. c = 40"])
    fix p s p' s' g assume "match_at U PARENTHESES p s = Some (p', s', g)"
    then show "length s' < length s \<and>
        ?m (expand [TChr 32, TGrp, TChr 32] g) + ?m s' < ?m s"
      by (rule parentheses_step)
  qed (rule mf)
  then have "?m (unwrapped U r) < ?m r"
    by (simp add: shaped_steps(1) [OF assms(1,2)] re_sub_def)
  moreover have "?m (normalise_with U SUFFIX_PATTERNS r k) \<le> ?m (unwrapped U r)"
    by (rule tail_le) (auto simp: isspace_def)
  ultimately have "?m (normalise_with U SUFFIX_PATTERNS r k) < ?m r" by simp
  then show ?thesis by auto
next
  case False
  let ?m = "\<lambda>x. length (filter (isword U) x)"
  note st = shaped_steps [OF assms(1,2)]
  note nsp = isword_ascii(3) [OF assms(1)]
  from False have u: "unwrapped U r = r" by (simp add: st(1) re_sub_free_id)
  from False assms(3) obtain q where k: k and q: "q \<in> set SUFFIX_PATTERNS"
    and m: "matches_in U q ([32] @ r @ [32])"
    by (auto simp: still_matches_def matches_in_from list_ex_iff)
  let ?f = "fold (\<lambda>pat pad. re_sub U pat [TChr 32] pad) SUFFIX_PATTERNS ([32] @ r @ [32])"
  have "?m ?f < ?m ([32] @ r @ [32])"
    by (rule fold_less [OF assms(1) subset_refl q m])
  then have f: "?m ?f < ?m r" using nsp by simp
  have "?m (normalise_with U SUFFIX_PATTERNS r k) \<le>
      ?m (strip_chars (str '' .,-_[]{}'') (before_trim U SUFFIX_PATTERNS r k))"
    unfolding normalise_with_trim by (rule collapse_le) (rule isword_space [OF assms(1)])
  also have "\<dots> \<le> ?m (before_trim U SUFFIX_PATTERNS r k)"
    unfolding strip_chars_def by (rule strip_by_le)
  also have "\<dots> \<le> ?m ?f"
    using k strip_by_le [of "isword U" isspace ?f]
    by (simp add: before_trim_unwrapped u strip_suffix_patterns_def strip_def)
  finally have "?m (normalise_with U SUFFIX_PATTERNS r k) < ?m r" using f by simp
  then show ?thesis by auto
qed

lemma parens_takeWhile: "parens (takeWhile (\<lambda>x. x \<noteq> 41) s) = takeWhile (\<lambda>x. x \<noteq> 41) (parens s)"
  by (induction s) (auto simp: parens_def)

lemma flat_parens: "flat s \<longleftrightarrow> flat (parens s)"
proof (induction s)
  case Nil
  show ?case by (simp add: parens_def)
next
  case (Cons c s)
  have "40 \<in> set (takeWhile (\<lambda>x. x \<noteq> 41) s) \<longleftrightarrow> 40 \<in> set (parens (takeWhile (\<lambda>x. x \<noteq> 41) s))"
    by (simp add: parens_def)
  then have t: "40 \<in> set (takeWhile (\<lambda>x. x \<noteq> 41) s) \<longleftrightarrow> 40 \<in> set (takeWhile (\<lambda>x. x \<noteq> 41) (parens s))"
    by (simp only: parens_takeWhile)
  show ?case
  proof (cases "c = 40 \<or> c = 41")
    case True
    then have "parens (c # s) = c # parens s" by (simp add: parens_def)
    with Cons t show ?thesis by simp
  next
    case False
    then have "parens (c # s) = parens s" by (simp add: parens_def)
    with Cons False show ?thesis by simp
  qed
qed

lemma parens_append: "parens (a @ b) = parens a @ parens b"
  by (simp add: parens_def)

lemma parens_none: "\<forall>c \<in> set a. c \<noteq> 40 \<and> c \<noteq> 41 \<Longrightarrow> parens a = []"
  by (induction a) (auto simp: parens_def)

lemma parens_strip_by:
  assumes "\<And>c. P c \<Longrightarrow> c \<noteq> 40 \<and> c \<noteq> 41"
  shows "parens (strip_by P s) = parens s"
proof -
  from strip_by_decomp [of s P] obtain a b where s: "s = a @ strip_by P s @ b"
    and a: "\<forall>c \<in> set a. P c" and b: "\<forall>c \<in> set b. P c" by blast
  from a b assms have "parens a = []" "parens b = []" by (auto intro!: parens_none)
  then have "parens (a @ strip_by P s @ b) = parens (strip_by P s)" by (simp add: parens_append)
  with s show ?thesis by simp
qed

lemma parens_replace:
  "old \<noteq> 40 \<Longrightarrow> old \<noteq> 41 \<Longrightarrow> new \<noteq> 40 \<Longrightarrow> new \<noteq> 41 \<Longrightarrow> parens (replace old new s) = parens s"
  by (induction s) (auto simp: parens_def replace_def)

lemma parens_dropWhile:
  assumes "\<And>c. P c \<Longrightarrow> c \<noteq> 40 \<and> c \<noteq> 41"
  shows "parens (dropWhile P s) = parens s"
  using assms by (induction s) (auto simp: parens_def)

lemma parens_collapse: "parens (collapse s) = parens s"
proof (induction s rule: collapse.induct)
  case 1
  show ?case by simp
next
  case (2 c cs)
  show ?case
  proof (cases "isspace c")
    case True
    then have c: "c \<noteq> 40" "c \<noteq> 41" by (auto simp: isspace_def)
    have "parens (dropWhile isspace cs) = parens cs"
      by (rule parens_dropWhile) (auto simp: isspace_def)
    with 2(1) [OF True] True c show ?thesis by (simp add: parens_def)
  next
    case False
    with 2(2) show ?thesis by (simp add: parens_def)
  qed
qed

lemma parens_toupper:
  assumes "unicode_ok U"
  shows "parens (toupper U c) = parens [c]"
proof (cases "c = 40 \<or> c = 41")
  case True
  then show ?thesis
    using unicode_ok_ascii(1) [OF assms, of c] by (auto simp: ascii_upper_def)
next
  case False
  have "\<forall>d \<in> set (toupper U c). d \<noteq> 40 \<and> d \<noteq> 41"
  proof
    fix d assume d: "d \<in> set (toupper U c)"
    show "d \<noteq> 40 \<and> d \<noteq> 41"
    proof (rule ccontr)
      assume "\<not> (d \<noteq> 40 \<and> d \<noteq> 41)"
      then have "d = 40 \<or> d = 41" by blast
      then have "d < 128 \<and> \<not> (65 \<le> d \<and> d \<le> 90)" by auto
      with assms d have "d = c" unfolding unicode_ok_def by blast
      with \<open>d = 40 \<or> d = 41\<close> False show False by simp
    qed
  qed
  then have "parens (toupper U c) = []" by (rule parens_none)
  with False show ?thesis by (simp add: parens_def)
qed

lemma parens_upper:
  assumes "unicode_ok U"
  shows "parens (upper U s) = parens s"
proof (induction s)
  case Nil
  show ?case by (simp add: upper_def)
next
  case (Cons c s)
  have "parens (upper U (c # s)) = parens (toupper U c) @ parens (upper U s)"
    by (simp add: upper_def parens_append)
  also have "\<dots> = parens [c] @ parens s"
    by (simp only: parens_toupper [OF assms] Cons)
  finally show ?case by (simp add: parens_def)
qed

lemma flat_before_unwrap:
  assumes "unicode_ok U" and "flat name"
  shows "flat (upper U (re_sub U WHITESPACE_RUN [TChr 32]
          (replace 8212 45 (replace 8211 45 (replace 8217 39 (strip name))))))"
proof -
  have "parens (upper U (re_sub U WHITESPACE_RUN [TChr 32]
          (replace 8212 45 (replace 8211 45 (replace 8217 39 (strip name)))))) = parens (strip name)"
    by (simp add: parens_upper [OF assms(1)] re_sub_collapse parens_collapse parens_replace)
  also have "\<dots> = parens name"
    unfolding strip_def by (rule parens_strip_by) (auto simp: isspace_def)
  finally show ?thesis using assms(2) flat_parens by metis
qed

lemma flat_suffix: "flat (a @ b) \<Longrightarrow> flat b"
  by (induction a) simp_all

lemma group_left_suffix: "group_left b \<Longrightarrow> group_left (a @ b)"
  by (induction a) simp_all

lemma group_left_prefix: "group_left a \<Longrightarrow> group_left (a @ b)"
  by (induction a) auto

lemma group_left_closed: "40 \<notin> set a \<Longrightarrow> group_left (a @ b) \<longleftrightarrow> group_left b"
  by (induction a) simp_all

lemma group_left_snoc: "c \<noteq> 41 \<Longrightarrow> group_left (u @ [c]) \<longleftrightarrow> group_left u"
proof (induction u)
  case Nil
  then show ?case by simp
next
  case (Cons x u)
  then show ?case by (cases u) auto
qed

lemma parentheses_group:
  assumes "match_at U PARENTHESES p s \<noteq> None"
  shows "group_left s"
proof -
  let ?d = "dropWhile isspace s"
  from assms obtain c r2 where d: "?d = c # r2"
    unfolding match_parentheses by (cases ?d) simp_all
  from assms have c: "c = 40" and t: "takeWhile (\<lambda>c. c \<noteq> 41) r2 \<noteq> []"
    and e: "dropWhile (\<lambda>c. c \<noteq> 41) r2 \<noteq> []"
    unfolding match_parentheses d by (simp_all split: if_splits)
  from t have r2: "r2 \<noteq> []" "hd r2 \<noteq> 41" by (cases r2; simp split: if_splits)+
  from e have "41 \<in> set r2" by (metis (mono_tags, lifting) dropWhile_eq_Nil_conv)
  with r2 c have "group_left ?d" by (simp add: d)
  then have "group_left (takeWhile isspace s @ ?d)" by (rule group_left_suffix)
  then show ?thesis by simp
qed

lemma matches_group: "matches_in U PARENTHESES r \<Longrightarrow> group_left r"
  unfolding matches_in_def using parentheses_group group_left_suffix by blast

lemma unwrap_flat:
  "flat s \<Longrightarrow> \<not> group_left (re_sub_from U PARENTHESES [TChr 32, TGrp, TChr 32] p s)"
proof (induction "length s" arbitrary: s p rule: less_induct)
  case less
  let ?T = "[TChr 32, TGrp, TChr 32]"
  show ?case
  proof (cases s)
    case Nil
    then show ?thesis by simp
  next
    case (Cons c cs)
    from less.prems have fcs: "flat cs" by (simp add: Cons)
    let ?out = "re_sub_from U PARENTHESES ?T (Some c) cs"
    have IH: "\<not> group_left ?out"
      by (rule less.hyps) (simp_all add: Cons fcs)
    show ?thesis
    proof (cases "match_at U PARENTHESES p s")
      case None
      have "\<not> (c = 40 \<and> ?out \<noteq> [] \<and> hd ?out \<noteq> 41 \<and> 41 \<in> set ?out)"
      proof
        assume a: "c = 40 \<and> ?out \<noteq> [] \<and> hd ?out \<noteq> 41 \<and> 41 \<in> set ?out"
        then have c: "c = 40" by blast
        have d: "dropWhile isspace s = 40 # cs" by (simp add: Cons c not_isspace_paren)
        have "match_at U PARENTHESES p s \<noteq> None"
          if "takeWhile (\<lambda>c. c \<noteq> 41) cs \<noteq> []" "dropWhile (\<lambda>c. c \<noteq> 41) cs \<noteq> []"
          unfolding match_parentheses d using that by (simp only: list.case if_True simp_thms) simp
        with None have "takeWhile (\<lambda>c. c \<noteq> 41) cs = [] \<or> dropWhile (\<lambda>c. c \<noteq> 41) cs = []"
          by blast
        then show False
        proof
          assume "dropWhile (\<lambda>c. c \<noteq> 41) cs = []"
          then have "41 \<notin> set cs" by (metis (mono_tags, lifting) dropWhile_eq_Nil_conv)
          with set_re_sub_from [of U PARENTHESES ?T "Some c" cs] have "41 \<notin> set ?out" by auto
          with a show False by blast
        next
          assume t: "takeWhile (\<lambda>c. c \<noteq> 41) cs = []"
          from a have "cs \<noteq> []" by auto
          with t obtain cs' where cs: "cs = 41 # cs'" by (cases cs) (auto split: if_splits)
          have "match_at U PARENTHESES (Some c) (41 # cs') = None"
            by (simp add: match_parentheses not_isspace_paren)
          then have "hd ?out = 41" by (simp add: cs)
          with a show False by blast
        qed
      qed
      with IH None show ?thesis by (simp add: Cons)
    next
      case (Some res)
      obtain p' s' g where res: "res = (p', s', g)" by (cases res)
      from Some res have m: "match_at U PARENTHESES p s = Some (p', s', g)" by simp
      from parentheses_step [OF m] have len: "length s' < length s" by blast
      from match_consumed [OF m len] obtain mm where mm: "s = mm @ s'" by blast
      with less.prems have "flat s'" using flat_suffix by blast
      from less.hyps [OF len this] have out': "\<not> group_left (re_sub_from U PARENTHESES ?T p' s')" .
      let ?d = "dropWhile isspace s"
      from m obtain x r2 where d: "?d = x # r2"
        unfolding match_parentheses by (cases ?d) simp_all
      from m have x: "x = 40" and g: "g = takeWhile (\<lambda>c. c \<noteq> 41) r2"
        unfolding match_parentheses d by (simp_all split: if_splits)
      have "s = takeWhile isspace s @ ?d" by simp
      with less.prems have "flat ?d" using flat_suffix by metis
      then have "40 \<notin> set g" by (simp add: d x g)
      then have "40 \<notin> set (expand ?T g)" by simp
      from group_left_closed [OF this] out'
      have "\<not> group_left (expand ?T g @ re_sub_from U PARENTHESES ?T p' s')" by blast
      moreover have "re_sub_from U PARENTHESES ?T p s = expand ?T g @ re_sub_from U PARENTHESES ?T p' s'"
        using m len unfolding Cons by simp
      ultimately show ?thesis by simp
    qed
  qed
qed

lemma group_left_edit:
  "m \<noteq> [] \<Longrightarrow> hd m \<noteq> 41 \<Longrightarrow> \<not> group_left (l @ m @ r) \<Longrightarrow> \<not> group_left (l @ 32 # r)"
proof (induction l)
  case Nil
  then show ?case using group_left_suffix [of r m] by auto
next
  case (Cons x l)
  from Cons.prems have ng: "\<not> group_left (l @ m @ r)"
    and first: "\<not> (x = 40 \<and> hd (l @ m @ r) \<noteq> 41 \<and> 41 \<in> set (l @ m @ r))"
    using Cons.prems(1) by auto
  from Cons.IH [OF Cons.prems(1,2) ng] have "\<not> group_left (l @ 32 # r)" .
  moreover have "\<not> (x = 40 \<and> hd (l @ 32 # r) \<noteq> 41 \<and> 41 \<in> set (l @ 32 # r))"
  proof
    assume a: "x = 40 \<and> hd (l @ 32 # r) \<noteq> 41 \<and> 41 \<in> set (l @ 32 # r)"
    then have "41 \<in> set (l @ m @ r)" by auto
    moreover have "hd (l @ m @ r) \<noteq> 41"
      using a Cons.prems(1,2) by (cases l) simp_all
    ultimately show False using first a by blast
  qed
  ultimately show ?case by simp
qed

lemma blank_no_group:
  assumes "\<And>p s p' s' g. match_at U q p s = Some (p', s', g) \<Longrightarrow> length s' < length s \<Longrightarrow> hd s \<noteq> 41"
  shows "\<not> group_left (l @ s) \<Longrightarrow> \<not> group_left (l @ re_sub_from U q [TChr 32] p s)"
proof (induction "length s" arbitrary: s l p rule: less_induct)
  case less
  show ?case
  proof (cases s)
    case Nil
    with less.prems show ?thesis by simp
  next
    case (Cons c cs)
    have copy: "\<not> group_left (l @ c # re_sub_from U q [TChr 32] (Some c) cs)"
      using less.hyps [of cs "l @ [c]" "Some c"] less.prems by (simp add: Cons)
    show ?thesis
    proof (cases "match_at U q p s")
      case None
      with copy show ?thesis by (simp add: Cons)
    next
      case (Some res)
      obtain p' s' g where res: "res = (p', s', g)" by (cases res)
      from Some res have m: "match_at U q p s = Some (p', s', g)" by simp
      show ?thesis
      proof (cases "length s' < length s")
        case True
        from match_consumed [OF m True] obtain mm where mm: "s = mm @ s'" "mm \<noteq> []" by blast
        from assms [OF m True] mm have "hd mm \<noteq> 41" by (cases mm) simp_all
        from group_left_edit [OF mm(2) this, of l s'] less.prems
        have "\<not> group_left ((l @ [32]) @ s')" by (simp add: mm(1))
        from less.hyps [OF True this, of p']
        have "\<not> group_left (l @ 32 # re_sub_from U q [TChr 32] p' s')" by simp
        moreover have "re_sub_from U q [TChr 32] p s = 32 # re_sub_from U q [TChr 32] p' s'"
          using m True unfolding Cons by simp
        ultimately show ?thesis by simp
      next
        case False
        then have "re_sub_from U q [TChr 32] p s = c # re_sub_from U q [TChr 32] (Some c) cs"
          using m unfolding Cons by simp
        with copy show ?thesis by simp
      qed
    qed
  qed
qed

lemma strip_by_no_group: "\<not> group_left s \<Longrightarrow> \<not> group_left (strip_by P s)"
proof -
  from strip_by_decomp [of s P] obtain a b where s: "s = a @ strip_by P s @ b" by blast
  assume "\<not> group_left s"
  with s have "\<not> group_left (a @ strip_by P s @ b)" by simp
  then show ?thesis using group_left_prefix group_left_suffix by blast
qed

lemma collapse_no_group: "\<not> group_left s \<Longrightarrow> \<not> group_left (collapse s)"
proof -
  assume a: "\<not> group_left s"
  have "\<not> group_left ([] @ re_sub_from U WHITESPACE_RUN [TChr 32] None s)" for U
  proof (rule blank_no_group)
    fix p s p' s' g assume "match_at U WHITESPACE_RUN p s = Some (p', s', g)"
    then show "hd s \<noteq> 41"
      by (cases s) (auto simp: match_at_def WHITESPACE_RUN_def match_whitespace_run isspace_def split: if_splits)
  qed (use a in simp)
  then show ?thesis by (simp add: re_sub_whitespace_run)
qed

lemma suffixes_no_group:
  assumes "unicode_ok U"
  shows "set pats \<subseteq> set SUFFIX_PATTERNS \<Longrightarrow> \<not> group_left x \<Longrightarrow>
     \<not> group_left (fold (\<lambda>pat pad. re_sub U pat [TChr 32] pad) pats x)"
proof (induction pats arbitrary: x)
  case Nil
  then show ?case by simp
next
  case (Cons r pats)
  from Cons.prems(1) have r: "r \<in> set SUFFIX_PATTERNS" and sub: "set pats \<subseteq> set SUFFIX_PATTERNS"
    by simp_all
  from suffix_pattern_blocks [OF assms r] obtain C where c: "has_cores U r C" by blast
  have n41: "\<not> isword U 41"
    by (simp add: isword_def unicode_ok_ascii [OF assms] ascii_alnum_def)
  have "\<not> group_left ([] @ re_sub_from U r [TChr 32] None x)"
  proof (rule blank_no_group)
    fix p s p' s' g assume "match_at U r p s = Some (p', s', g)"
    then have "match_at U r p s \<noteq> None" by simp
    with c obtain core where "core \<in> C" "take (length core) s = core"
      unfolding has_cores_def by blast
    with core_props [OF c, of core] have "isword U (hd s)"
      by (cases s; cases core) auto
    with n41 show "hd s \<noteq> 41" by auto
  qed (use Cons.prems(2) in simp)
  then have "\<not> group_left (re_sub U r [TChr 32] x)" by (simp add: re_sub_def)
  from Cons.IH [OF sub this] show ?case by simp
qed

lemma normalise_flat:
  assumes "unicode_ok U" and "flat name"
  shows "\<not> matches_in U PARENTHESES (normalise_with U SUFFIX_PATTERNS name k)"
proof -
  let ?u = "unwrapped U name"
  have u: "\<not> group_left ?u"
    using unwrap_flat [OF flat_before_unwrap [OF assms]] by (simp add: unwrapped_def re_sub_def)
  have b: "\<not> group_left (before_trim U SUFFIX_PATTERNS name k)"
  proof (cases k)
    case False
    with u show ?thesis by (simp add: before_trim_unwrapped)
  next
    case True
    from u have "\<not> group_left (32 # ?u)" by simp
    then have "\<not> group_left ((32 # ?u) @ [32])" using group_left_snoc [of 32 "32 # ?u"] by simp
    then have "\<not> group_left ([32] @ ?u @ [32])" by simp
    from suffixes_no_group [OF assms(1) subset_refl this]
    have "\<not> group_left (strip_suffix_patterns U SUFFIX_PATTERNS ?u)"
      unfolding strip_suffix_patterns_def strip_def by (rule strip_by_no_group)
    with True show ?thesis by (simp add: before_trim_unwrapped)
  qed
  have "\<not> group_left (normalise_with U SUFFIX_PATTERNS name k)"
    unfolding normalise_with_trim strip_chars_def
    by (rule collapse_no_group [OF strip_by_no_group [OF b]])
  then show ?thesis using matches_group by blast
qed

lemma punctuation_nonword:
  assumes "unicode_ok U" and "c \<in> set (str '' .,-[]{}'')"
  shows "\<not> isword U c"
proof -
  from assms(2) have "c \<in> set TRIMMED" "c \<noteq> 95" by (auto simp: TRIMMED_def str_def)
  then show ?thesis by (rule trimmed_nonword [OF assms(1)])
qed

lemma normalise_suffix_free:
  assumes "unicode_ok U" and "keeps_underscores U name" and "q \<in> set SUFFIX_PATTERNS"
  shows "\<not> matches_in U q ([32] @ normalise_with U SUFFIX_PATTERNS name True @ [32])"
proof -
  let ?u = "unwrapped U name"
  let ?f = "fold (\<lambda>pat pad. re_sub U pat [TChr 32] pad) SUFFIX_PATTERNS ([32] @ ?u @ [32])"
  let ?b = "before_trim U SUFFIX_PATTERNS name True"
  let ?t = "strip_chars (str '' .,-_[]{}'') ?b"
  have r: "normalise_with U SUFFIX_PATTERNS name True = collapse ?t" by (rule normalise_with_trim)
  have t: "?t = strip_by (\<lambda>c. c \<in> set (str '' .,-[]{}'')) ?b"
    using assms(2) by (simp add: keeps_underscores_def strip_chars_def)
  have b: "?b = strip_by isspace ?f"
    by (simp add: before_trim_unwrapped strip_suffix_patterns_def strip_def)
  note nsp = isword_ascii(3) [OF assms(1)]
  from suffix_pattern_blocks [OF assms(1,3)] obtain C where c: "has_cores U q C" by blast
  from strip_by_decomp [of ?f isspace] obtain a1 b1
    where 1: "?f = a1 @ ?b @ b1" "\<forall>c \<in> set a1. isspace c" "\<forall>c \<in> set b1. isspace c"
    unfolding b by blast
  from strip_by_decomp [of ?b "\<lambda>c. c \<in> set (str '' .,-[]{}'')"] obtain a2 b2
    where 2: "?b = a2 @ ?t @ b2" "\<forall>c \<in> set a2. c \<in> set (str '' .,-[]{}'')"
      "\<forall>c \<in> set b2. c \<in> set (str '' .,-[]{}'')"
    unfolding t by blast
  have f: "?f = (a1 @ a2) @ ?t @ (b2 @ b1)"
    by (subst 1(1), subst 2(1)) simp
  have a: "\<forall>c \<in> set (a1 @ a2). \<not> isword U c"
    using 1(2) 2(2) isword_space [OF assms(1)] punctuation_nonword [OF assms(1)] by auto
  have bb: "\<forall>c \<in> set (b2 @ b1). \<not> isword U c"
    using 1(3) 2(3) isword_space [OF assms(1)] punctuation_nonword [OF assms(1)] by auto
  have "\<not> matches_in U q ?f"
    by (rule fold_removes [OF assms(1) subset_refl assms(3)])
  then have "\<not> matches_in U q ((a1 @ a2) @ ?t @ (b2 @ b1))"
    by (subst f [symmetric])
  from trim_free [OF c nsp a bb this] have "\<not> matches_in U q ([32] @ ?t @ [32])" .
  then have "\<not> matches_in U q ([32] @ collapse ?t @ [32])"
    using collapse_free [OF c nsp, of "[32]" ?t "[32]"] isword_space [OF assms(1)] by blast
  then show ?thesis by (simp only: r simp_thms)
qed

lemma normalise_settled:
  assumes "unicode_ok U" and "flat name" and "k \<longrightarrow> keeps_underscores U name"
  shows "\<not> still_matches U k (normalise_with U SUFFIX_PATTERNS name k)"
proof -
  have "\<not> matches_from U PARENTHESES None (normalise_with U SUFFIX_PATTERNS name k)"
    using normalise_flat [OF assms(1,2)] by (simp add: matches_in_from)
  moreover have "\<not> matches_from U q None ([32] @ normalise_with U SUFFIX_PATTERNS name k @ [32])"
    if k "q \<in> set SUFFIX_PATTERNS" for q
    using normalise_suffix_free [OF assms(1) _ that(2)] assms(3) that(1)
    by (simp add: matches_in_from)
  ultimately show ?thesis by (auto simp: still_matches_def list_ex_iff)
qed

text \<open>
  C2, amended. Normalising the result of a normalisation again changes it exactly when
  a substitution of the second pass finds something in it: a parenthesised group or,
  where suffixes are stripped, a suffix. Neither is there, and normalising twice gives
  what normalising once gives, for every name in which no parenthesis opens inside an
  open one and from which, where suffixes are stripped, the last \<^verbatim>\<open>strip\<close> removes no
  underscore.
\<close>

theorem normalise_idempotent:
  assumes "unicode_ok U"
  shows "(normalise_company_name U (Str (normalise_company_name U (Str name) k)) k =
            normalise_company_name U (Str name) k \<longleftrightarrow>
          \<not> still_matches U k (normalise_company_name U (Str name) k)) \<and>
         (flat name \<and> (k \<longrightarrow> keeps_underscores U name) \<longrightarrow>
            normalise_company_name U (Str (normalise_company_name U (Str name) k)) k =
            normalise_company_name U (Str name) k)"
proof -
  let ?r = "normalise_with U SUFFIX_PATTERNS name k"
  note sh = normalise_shaped [OF assms, of SUFFIX_PATTERNS name k]
  have 1: "normalise_with U SUFFIX_PATTERNS ?r k = ?r \<longleftrightarrow> \<not> still_matches U k ?r"
    using shaped_fixed [OF assms sh] shaped_changed [OF assms sh] by blast
  have 2: "\<not> still_matches U k ?r" if "flat name" "k \<longrightarrow> keeps_underscores U name"
    using that by (rule normalise_settled [OF assms])
  from 1 2 show ?thesis by simp
qed

text \<open>
  A name with an underscore inside a word, a group in parentheses and a punctuated
  suffix.
\<close>

theorem normalise_idempotent_witness:
  "unicode_ok ascii_db \<and> flat (str ''Acme_Widgets (Holdings) P.L.C.'') \<and>
   keeps_underscores ascii_db (str ''Acme_Widgets (Holdings) P.L.C.'') \<and>
   normalise_company_name ascii_db (Str (str ''Acme_Widgets (Holdings) P.L.C.'')) True =
     str ''ACME_WIDGETS HOLDINGS'' \<and>
   normalise_company_name ascii_db (Str (str ''ACME_WIDGETS HOLDINGS'')) True =
     str ''ACME_WIDGETS HOLDINGS'' \<and>
   \<not> still_matches ascii_db True (str ''ACME_WIDGETS HOLDINGS'')"
proof -
  have 1: "flat (str ''Acme_Widgets (Holdings) P.L.C.'')" by code_simp
  have 2: "keeps_underscores ascii_db (str ''Acme_Widgets (Holdings) P.L.C.'')" by code_simp
  have e: "normalise_company_name ascii_db (Str (str ''Acme_Widgets (Holdings) P.L.C.'')) True =
      str ''ACME_WIDGETS HOLDINGS''"
    by code_simp
  from normalise_idempotent [OF ascii_db_ok, of "str ''Acme_Widgets (Holdings) P.L.C.''" True]
  show ?thesis
    using ascii_db_ok 1 2 unfolding e by blast
qed

text \<open>
  Nested parentheses, and an underscore next to a suffix: the second normalisation
  changes the result of the first.
\<close>

theorem normalise_idempotent_counterexample:
  "normalise_company_name ascii_db (Str (str ''((A))'')) False = str ''(A )'' \<and>
   normalise_company_name ascii_db (Str (str ''(A )'')) False = str ''A'' \<and>
   normalise_company_name ascii_db (Str (normalise_company_name ascii_db (Str (str ''((A))'')) False)) False \<noteq>
     normalise_company_name ascii_db (Str (str ''((A))'')) False \<and>
   normalise_company_name ascii_db (Str (str ''LTD_'')) True = str ''LTD'' \<and>
   normalise_company_name ascii_db (Str (str ''LTD'')) True = [] \<and>
   normalise_company_name ascii_db (Str (normalise_company_name ascii_db (Str (str ''LTD_'')) True)) True \<noteq>
     normalise_company_name ascii_db (Str (str ''LTD_'')) True"
  by code_simp

(*LEMMAS_END*)

end
